theory Spec2Isabelle
  imports Complex_Main "HOL-Library.Word" "HOL-Library.Sublist" "HOL-Library.Log_Nat"
begin

section \<open>Voice input pipeline: transcript merging, resampling, PCM encoding, session\<close>

text \<open>
  A shallow embedding of the voice-input hook (\<^verbatim>\<open>useVoiceInput\<close>) of the
  repository: the transcript merger \<^verbatim>\<open>mergeTranscript\<close>, the resampler
  \<^verbatim>\<open>downsampleBuffer\<close>, the encoder \<^verbatim>\<open>floatTo16BitPCM\<close> and the
  recording session with its voice-activity detection. The definitions follow the
  variant of the hook that has the voice-activity detection and the
  \<^verbatim>\<open>stoppingRef\<close> guard; the older variant has the same merger, resampler and
  encoder, character for character, and a \<^verbatim>\<open>stopRecording\<close> without the guard.
\<close>

subsection \<open>Strings\<close>

text \<open>
  An ECMAScript string is a sequence of 16-bit code units. \<^verbatim>\<open>String.prototype.trim\<close>
  removes, from both ends, the code units that are WhiteSpace or LineTerminator in
  ECMA-262: TAB, LF, VT, FF, CR, SPACE, NBSP, U+1680, U+2000 to U+200A, U+2028, U+2029,
  U+202F, U+205F, U+3000 and U+FEFF.
\<close>

type_synonym jsstring = "16 word list"

definition isWhiteSpace :: "16 word \<Rightarrow> bool" where
  "isWhiteSpace c \<longleftrightarrow>
     (0x0009 \<le> c \<and> c \<le> 0x000D) \<or> c = 0x0020 \<or> c = 0x00A0 \<or> c = 0x1680 \<or>
     (0x2000 \<le> c \<and> c \<le> 0x200A) \<or> c = 0x2028 \<or> c = 0x2029 \<or> c = 0x202F \<or>
     c = 0x205F \<or> c = 0x3000 \<or> c = 0xFEFF"

definition trim :: "jsstring \<Rightarrow> jsstring" where
  "trim s = rev (dropWhile isWhiteSpace (rev (dropWhile isWhiteSpace s)))"

text \<open>
  \<^verbatim>\<open>s.startsWith(searchString)\<close> at position 0: false when the search string is
  longer than \<open>s\<close>, otherwise the code units are compared.
\<close>

definition startsWith :: "jsstring \<Rightarrow> jsstring \<Rightarrow> bool" where
  "startsWith s searchString \<longleftrightarrow>
     length searchString \<le> length s \<and> take (length searchString) s = searchString"

text \<open>An ASCII literal as an ECMAScript string, for concrete inputs.\<close>

definition js :: "string \<Rightarrow> jsstring" where
  "js s = map of_char s"

subsection \<open>The transcript merger\<close>

text \<open>
  \<^verbatim>\<open>
  const mergeTranscript = useCallback((prev: string, nextText: string) => {
      const cleaned = nextText.trim();
      if (!prev) return cleaned;
      if (cleaned.startsWith(prev)) return cleaned;
      if (prev.startsWith(cleaned)) return prev;
      return `${prev} ${cleaned}`.trim();
  }, []);
  \<close>
  \<^verbatim>\<open>!prev\<close> holds of the empty string only; the template literal puts one SPACE
  (U+0020) between the two strings.
\<close>

definition mergeTranscript :: "jsstring \<Rightarrow> jsstring \<Rightarrow> jsstring" where
  "mergeTranscript prev nextText =
     (let cleaned = trim nextText in
      if prev = [] then cleaned
      else if startsWith cleaned prev then cleaned
      else if startsWith prev cleaned then prev
      else trim (prev @ [0x0020] @ cleaned))"

text \<open>
  The four-step policy in the specification's words (section 4.4), with "starts with"
  read as the prefix order on lists.
\<close>

definition merge_policy :: "jsstring \<Rightarrow> jsstring \<Rightarrow> jsstring" where
  "merge_policy previous incoming =
     (if previous = [] then trim incoming
      else if prefix previous (trim incoming) then trim incoming
      else if prefix (trim incoming) previous then previous
      else trim (previous @ [0x0020] @ trim incoming))"

text \<open>Doubled whitespace: two adjacent code units that are both whitespace.\<close>

fun doubled_ws :: "jsstring \<Rightarrow> bool" where
  "doubled_ws (a # b # s) = ((isWhiteSpace a \<and> isWhiteSpace b) \<or> doubled_ws (b # s))"
| "doubled_ws _ = False"

subsection \<open>Numbers\<close>

text \<open>
  An ECMAScript number is an IEEE 754 double: not-a-number, an infinity, or a finite
  value, here the rational it denotes. The sign of zero is not modelled: it changes no
  comparison and no result of the functions below (a division by \<open>-0\<close> instead of
  \<open>+0\<close> flips an infinity, which the resampler rejects as an array length either
  way).

  Arithmetic rounds the exact result to the nearest representable value, ties to the
  even significand: \<open>fl p emin emax\<close> rounds to \<open>p\<close> significant bits with exponents
  from \<open>emin\<close> to \<open>emax\<close>, gradual underflow below and an infinity above.
\<close>

datatype number = NaN | PosInf | NegInf | Finite rat

text \<open>\<open>ilog2 x\<close> is the integer \<open>e\<close> with \<open>2\<^sup>e \<le> x < 2\<^sup>e\<^sup>+\<^sup>1\<close>, for positive \<open>x\<close>.\<close>

definition ilog2 :: "rat \<Rightarrow> int" where
  "ilog2 x = (if 1 \<le> x then bitlen \<lfloor>x\<rfloor> - 1 else - bitlen (\<lceil>1 / x\<rceil> - 1))"

text \<open>Rounding to the nearest integer, ties to the even one.\<close>

definition rne :: "rat \<Rightarrow> int" where
  "rne x = (let f = \<lfloor>x\<rfloor>; d = x - of_int f in
     if d < 1 / 2 then f else if 1 / 2 < d then f + 1 else if even f then f else f + 1)"

definition fl :: "nat \<Rightarrow> int \<Rightarrow> int \<Rightarrow> rat \<Rightarrow> number" where
  "fl p emin emax x =
     (if x = 0 then Finite 0
      else let e = max (ilog2 \<bar>x\<bar>) emin; u = 2 powi (e - int p + 1); m = rne (x / u)
           in if emax < e \<or> (e = emax \<and> \<bar>m\<bar> = 2 ^ p)
              then (if 0 < x then PosInf else NegInf)
              else Finite (of_int m * u))"

text \<open>Double precision (binary64) and single precision (binary32).\<close>

definition fl64 :: "rat \<Rightarrow> number" where
  "fl64 = fl 53 (- 1022) 1023"

definition fl32 :: "rat \<Rightarrow> number" where
  "fl32 = fl 24 (- 126) 127"

text \<open>The operators \<^verbatim>\<open>+\<close>, \<^verbatim>\<open>*\<close>, \<^verbatim>\<open>/\<close>, \<^verbatim>\<open><\<close> and \<^verbatim>\<open>===\<close> on numbers.\<close>

fun fadd :: "number \<Rightarrow> number \<Rightarrow> number" where
  "fadd NaN _ = NaN"
| "fadd _ NaN = NaN"
| "fadd PosInf NegInf = NaN"
| "fadd NegInf PosInf = NaN"
| "fadd PosInf _ = PosInf"
| "fadd _ PosInf = PosInf"
| "fadd NegInf _ = NegInf"
| "fadd _ NegInf = NegInf"
| "fadd (Finite x) (Finite y) = fl64 (x + y)"

fun fmul :: "number \<Rightarrow> number \<Rightarrow> number" where
  "fmul NaN _ = NaN"
| "fmul _ NaN = NaN"
| "fmul PosInf PosInf = PosInf"
| "fmul PosInf NegInf = NegInf"
| "fmul NegInf PosInf = NegInf"
| "fmul NegInf NegInf = PosInf"
| "fmul PosInf (Finite y) = (if y = 0 then NaN else if 0 < y then PosInf else NegInf)"
| "fmul NegInf (Finite y) = (if y = 0 then NaN else if 0 < y then NegInf else PosInf)"
| "fmul (Finite x) PosInf = (if x = 0 then NaN else if 0 < x then PosInf else NegInf)"
| "fmul (Finite x) NegInf = (if x = 0 then NaN else if 0 < x then NegInf else PosInf)"
| "fmul (Finite x) (Finite y) = fl64 (x * y)"

fun fdiv :: "number \<Rightarrow> number \<Rightarrow> number" where
  "fdiv NaN _ = NaN"
| "fdiv _ NaN = NaN"
| "fdiv PosInf PosInf = NaN"
| "fdiv PosInf NegInf = NaN"
| "fdiv NegInf PosInf = NaN"
| "fdiv NegInf NegInf = NaN"
| "fdiv PosInf (Finite y) = (if 0 \<le> y then PosInf else NegInf)"
| "fdiv NegInf (Finite y) = (if 0 \<le> y then NegInf else PosInf)"
| "fdiv (Finite x) PosInf = Finite 0"
| "fdiv (Finite x) NegInf = Finite 0"
| "fdiv (Finite x) (Finite y) =
     (if y = 0 then (if x = 0 then NaN else if 0 < x then PosInf else NegInf)
      else fl64 (x / y))"

fun lt :: "number \<Rightarrow> number \<Rightarrow> bool" where
  "lt NaN _ = False"
| "lt _ NaN = False"
| "lt PosInf _ = False"
| "lt _ PosInf = True"
| "lt _ NegInf = False"
| "lt NegInf _ = True"
| "lt (Finite x) (Finite y) = (x < y)"

definition strict_eq :: "number \<Rightarrow> number \<Rightarrow> bool" where
  "strict_eq a b \<longleftrightarrow> a \<noteq> NaN \<and> a = b"

text \<open>
  \<^verbatim>\<open>Math.round\<close> rounds to the nearest integer, a tie towards plus infinity;
  \<^verbatim>\<open>Math.min\<close> and \<^verbatim>\<open>Math.max\<close> give not-a-number when an argument is one.
\<close>

fun Math_round :: "number \<Rightarrow> number" where
  "Math_round (Finite x) = Finite (of_int \<lfloor>x + 1 / 2\<rfloor>)"
| "Math_round v = v"

fun Math_min :: "number \<Rightarrow> number \<Rightarrow> number" where
  "Math_min NaN _ = NaN"
| "Math_min _ NaN = NaN"
| "Math_min a b = (if lt b a then b else a)"

fun Math_max :: "number \<Rightarrow> number \<Rightarrow> number" where
  "Math_max NaN _ = NaN"
| "Math_max _ NaN = NaN"
| "Math_max a b = (if lt a b then b else a)"

text \<open>Truncation towards zero, as the integer conversions of ECMA-262 do.\<close>

definition trunc :: "rat \<Rightarrow> int" where
  "trunc x = (if 0 \<le> x then \<lfloor>x\<rfloor> else \<lceil>x\<rceil>)"

text \<open>
  \<^verbatim>\<open>new Float32Array(length)\<close> converts its argument with ToIndex: not-a-number is
  the length 0, the value is truncated, and a result outside \<open>0 .. 2\<^sup>5\<^sup>3 - 1\<close> is a
  RangeError. (Engines refuse large lengths earlier, by the same RangeError.) A
  \<^verbatim>\<open>Float32Array\<close> holds single-precision values: a store rounds the double.
  Reading outside the array gives \<^verbatim>\<open>undefined\<close>, which is not-a-number in
  arithmetic. An \<^verbatim>\<open>Int16Array\<close> store converts with ToInt16: not-a-number and the
  infinities are 0, other values are truncated and wrapped to 16 bits.
\<close>

fun ToIndex :: "number \<Rightarrow> nat option" where
  "ToIndex NaN = Some 0"
| "ToIndex PosInf = None"
| "ToIndex NegInf = None"
| "ToIndex (Finite x) =
     (if 0 \<le> trunc x \<and> trunc x \<le> 2 ^ 53 - 1 then Some (nat (trunc x)) else None)"

fun fround :: "number \<Rightarrow> number" where
  "fround (Finite x) = fl32 x"
| "fround v = v"

definition read_at :: "number list \<Rightarrow> int \<Rightarrow> number" where
  "read_at buffer i = (if 0 \<le> i \<and> i < int (length buffer) then buffer ! nat i else NaN)"

fun ToInt16 :: "number \<Rightarrow> 16 word" where
  "ToInt16 (Finite x) = word_of_int (trunc x)"
| "ToInt16 _ = 0"

subsection \<open>The resampler\<close>

text \<open>
  \<^verbatim>\<open>
  const downsampleBuffer = (buffer: Float32Array, inputSampleRate: number, outputSampleRate: number) => {
      if (outputSampleRate === inputSampleRate) {
          return buffer;
      }
      const sampleRateRatio = inputSampleRate / outputSampleRate;
      const newLength = Math.round(buffer.length / sampleRateRatio);
      const result = new Float32Array(newLength);
      let offsetResult = 0;
      let offsetBuffer = 0;
      while (offsetResult < result.length) {
          const nextOffsetBuffer = Math.round((offsetResult + 1) * sampleRateRatio);
          let accum = 0;
          let count = 0;
          for (let i = offsetBuffer; i < nextOffsetBuffer && i < buffer.length; i++) {
              accum += buffer[i];
              count++;
          }
          result[offsetResult] = accum / Math.max(1, count);
          offsetResult++;
          offsetBuffer = nextOffsetBuffer;
      }
      return result;
  };
  \<close>
\<close>

datatype error = RangeError | NonTermination | Unmodelled

text \<open>
  The inner \<^verbatim>\<open>for\<close> loop, from an integer index \<open>i\<close>. It stops at the end of the
  buffer at the latest.
\<close>

function sum_block :: "number list \<Rightarrow> number \<Rightarrow> int \<Rightarrow> number \<Rightarrow> nat \<Rightarrow> number \<times> nat" where
  "sum_block buffer nextOffsetBuffer i accum count =
     (if lt (Finite (of_int i)) nextOffsetBuffer \<and> i < int (length buffer)
      then sum_block buffer nextOffsetBuffer (i + 1) (fadd accum (read_at buffer i)) (count + 1)
      else (accum, count))"
  by pat_completeness auto
termination
  by (relation "measure (\<lambda>(buffer, n, i, a, c). nat (int (length buffer) - i))") auto

declare sum_block.simps [simp del]

text \<open>
  The loop starts at \<open>offsetBuffer\<close>, a number. From not-a-number or plus infinity
  the condition is false at once. From minus infinity the index never moves, and the
  loop does not end when its condition holds. A finite start is an integer in every run
  (it is 0 or a result of \<^verbatim>\<open>Math.round\<close>); the increment is exact from
  \<open>-2\<^sup>5\<^sup>3\<close> on. A start below that, or not an integer, is outside the model.
\<close>

fun block_sum :: "number list \<Rightarrow> number \<Rightarrow> number \<Rightarrow> error + number \<times> nat" where
  "block_sum buffer (Finite r) nextOffsetBuffer =
     (if r = of_int \<lfloor>r\<rfloor> \<and> - (2 ^ 53) \<le> r
      then Inr (sum_block buffer nextOffsetBuffer \<lfloor>r\<rfloor> (Finite 0) 0)
      else Inl Unmodelled)"
| "block_sum buffer NegInf nextOffsetBuffer =
     (if lt NegInf nextOffsetBuffer then Inl NonTermination else Inr (Finite 0, 0))"
| "block_sum buffer v nextOffsetBuffer = Inr (Finite 0, 0)"

text \<open>
  The \<^verbatim>\<open>while\<close> loop over the result array, which has \<open>newLength = length result\<close>
  elements from its allocation on.
\<close>

function downsample_loop ::
  "number list \<Rightarrow> number \<Rightarrow> nat \<Rightarrow> number \<Rightarrow> number list \<Rightarrow> error + number list" where
  "downsample_loop buffer sampleRateRatio offsetResult offsetBuffer result =
     (if offsetResult < length result then
        let nextOffsetBuffer = Math_round (fmul (Finite (of_nat (offsetResult + 1))) sampleRateRatio)
        in case block_sum buffer offsetBuffer nextOffsetBuffer of
             Inl e \<Rightarrow> Inl e
           | Inr (accum, count) \<Rightarrow>
               downsample_loop buffer sampleRateRatio (offsetResult + 1) nextOffsetBuffer
                 (result[offsetResult := fround (fdiv accum (Finite (of_nat (max 1 count))))])
      else Inr result)"
  by pat_completeness auto
termination
  by (relation "measure (\<lambda>(buffer, ratio, k, off, result). length result - k)") auto

declare downsample_loop.simps [simp del]

definition downsampleBuffer :: "number list \<Rightarrow> number \<Rightarrow> number \<Rightarrow> error + number list" where
  "downsampleBuffer buffer inputSampleRate outputSampleRate =
     (if strict_eq outputSampleRate inputSampleRate then Inr buffer
      else
        let sampleRateRatio = fdiv inputSampleRate outputSampleRate;
            newLength = Math_round (fdiv (Finite (of_nat (length buffer))) sampleRateRatio)
        in case ToIndex newLength of
             None \<Rightarrow> Inl RangeError
           | Some n \<Rightarrow> downsample_loop buffer sampleRateRatio 0 (Finite 0) (replicate n (Finite 0)))"

text \<open>
  The length law in the specification's words, \<open>round(N * R_out / R_in)\<close> in exact
  arithmetic, a tie rounded up as \<^verbatim>\<open>Math.round\<close> does.
\<close>

definition length_law :: "nat \<Rightarrow> rat \<Rightarrow> rat \<Rightarrow> int" where
  "length_law N R_in R_out = \<lfloor>of_nat N * R_out / R_in + 1 / 2\<rfloor>"

text \<open>
  Two predicates for the properties of the resampler: a sample in \<open>[-1, 1]\<close>, and
  what an offset into the buffer is in every run of the loop, a natural number or plus
  infinity.
\<close>

fun unit_sample :: "number \<Rightarrow> bool" where
  "unit_sample (Finite x) = (- 1 \<le> x \<and> x \<le> 1)"
| "unit_sample _ = False"

fun offset_ok :: "number \<Rightarrow> bool" where
  "offset_ok (Finite r) = (0 \<le> r \<and> r = of_int \<lfloor>r\<rfloor>)"
| "offset_ok PosInf = True"
| "offset_ok _ = False"

subsection \<open>The PCM encoder\<close>

text \<open>
  \<^verbatim>\<open>
  const floatTo16BitPCM = (input: Float32Array) => {
      const output = new Int16Array(input.length);
      for (let i = 0; i < input.length; i++) {
          const s = Math.max(-1, Math.min(1, input[i]));
          output[i] = s < 0 ? s * 0x8000 : s * 0x7fff;
      }
      return output;
  };
  \<close>
  \<open>scaled\<close> is the number stored at one index, \<open>pcm_sample\<close> the element the
  \<^verbatim>\<open>Int16Array\<close> then holds.
\<close>

definition scaled :: "number \<Rightarrow> number" where
  "scaled x =
     (let s = Math_max (Finite (- 1)) (Math_min (Finite 1) x)
      in if lt s (Finite 0) then fmul s (Finite 32768) else fmul s (Finite 32767))"

text \<open>
  The encoder in the specification's words: clamp to \<open>[-1, 1]\<close>, then scale negative
  values by 32768 and non-negative values by 32767, in exact arithmetic.
\<close>

definition clamp_scale :: "rat \<Rightarrow> rat" where
  "clamp_scale x =
     (let s = max (- 1) (min 1 x) in if s < 0 then s * 32768 else s * 32767)"

text \<open>The values a \<^verbatim>\<open>Float32Array\<close> can hold: those a store leaves unchanged.\<close>

definition single :: "rat \<Rightarrow> bool" where
  "single x \<longleftrightarrow> fl32 x = Finite x"

definition pcm_sample :: "number \<Rightarrow> 16 word" where
  "pcm_sample x = ToInt16 (scaled x)"

fun floatTo16BitPCM :: "number list \<Rightarrow> 16 word list" where
  "floatTo16BitPCM [] = []"
| "floatTo16BitPCM (x # input) = pcm_sample x # floatTo16BitPCM input"

subsection \<open>The recording session\<close>

text \<open>
  The hook \<^verbatim>\<open>useVoiceInput\<close> keeps its state in React state variables and refs. It
  runs on the single thread of the event loop: each handler runs to its end, or to an
  \<^verbatim>\<open>await\<close>, before the next event is taken. The model is a state record and one
  function for each handler; an \<^verbatim>\<open>await\<close> on an operation of the platform splits
  a function into the part before it and the continuation, which a later event resumes.
  A continuation that waits only for a promise resolved by the hook itself runs as a
  microtask, before any other event, and is part of the step that resolves it.

  The platform is represented by what the hook observes of it: the ready state of each
  web socket the hook created, the pending \<^verbatim>\<open>getUserMedia\<close> requests, and the
  pending \<^verbatim>\<open>AudioContext.close()\<close> promises. What the hook does to the outside (calls
  on the audio nodes and sockets, callbacks to its caller, values returned by
  \<^verbatim>\<open>stopRecording\<close>) is appended to a log of effects.

  React does not apply an update of the transcript state when \<^verbatim>\<open>setTranscript\<close>
  is called: it queues the new value, or the updater function, and applies the queue in
  order when it next renders the component. The model keeps the queue in
  \<open>transcript_updates\<close>, and a render is an event of its own. The other state
  variables (\<^verbatim>\<open>isRecording\<close>, \<^verbatim>\<open>isConnecting\<close>, \<^verbatim>\<open>error\<close>) are set by
  value and read only by the guard of \<^verbatim>\<open>startRecording\<close> and by the caller; the
  model sets them at once, taking the component to have rendered before the guard
  next reads them. The root-mean-square energy of a frame involves
  \<^verbatim>\<open>Math.sqrt\<close>, which is not modelled: the frame event carries the value of
  \<^verbatim>\<open>rms\<close>.
\<close>

datatype ready_state = CONNECTING | OPEN | CLOSING | CLOSED

datatype reason = Manual | Vad

text \<open>
  A queued update of the transcript state: \<^verbatim>\<open>setTranscript('')\<close> queues a value,
  \<^verbatim>\<open>updateTranscript(nextText)\<close> queues its updater, which is determined by
  \<open>nextText\<close>.
\<close>

datatype state_update = Value jsstring | Updater jsstring

text \<open>
  A call of \<^verbatim>\<open>stopRecording\<close> that passed the guard: it waits for
  \<^verbatim>\<open>cleanupAudio\<close>, then for its \<^verbatim>\<open>finalizePromise\<close>, then has returned a text.
  \<open>ws_of\<close> is its local constant \<^verbatim>\<open>ws\<close>.
\<close>

datatype phase = Cleaning | Waiting | Finished jsstring

record stop_call =
  reason_of :: reason
  ws_of :: "nat option"
  phase_of :: phase

datatype effect =
    ProcessorDisconnected
  | AudioContextClose
  | TracksStopped
  | SentEndOfStream nat
  | SentAudio nat "16 word list"
  | SocketClose nat
  | OnTranscript jsstring
  | OnFinalTranscript jsstring
  | OnAutoStop jsstring
  | Returned nat jsstring
  | ReturnedEarly jsstring

record session =
  isRecording :: bool
  isConnecting :: bool
  transcript :: jsstring
  transcript_updates :: "state_update list"
  error_state :: "jsstring option"
  wsRef :: "nat option"
  audioContextRef :: bool
  processorRef :: bool
  streamRef :: bool
  transcriptRef :: jsstring
  finalizeRef :: "nat option"
  socketReadyRef :: bool
  isRecordingRef :: bool
  vadEnabledRef :: bool
  vadSilenceMsRef :: int
  vadThresholdRef :: number
  lastVoiceAtRef :: int
  hasVoiceRef :: bool
  vadIntervalRef :: bool
  stoppingRef :: bool
  sockets :: "ready_state list"
  stops :: "stop_call list"
  closes :: "nat option list"
  pending_media :: nat
  effects :: "effect list"

text \<open>
  The state after the first render, for the options \<^verbatim>\<open>vadEnabled\<close>,
  \<^verbatim>\<open>vadSilenceMs\<close> and \<^verbatim>\<open>vadThreshold\<close>.
\<close>

definition initial :: "bool \<Rightarrow> int \<Rightarrow> number \<Rightarrow> session" where
  "initial vadEnabled vadSilenceMs vadThreshold =
     \<lparr> isRecording = False, isConnecting = False, transcript = [], transcript_updates = [],
       error_state = None,
       wsRef = None, audioContextRef = False, processorRef = False, streamRef = False,
       transcriptRef = [], finalizeRef = None, socketReadyRef = False,
       isRecordingRef = False, vadEnabledRef = vadEnabled, vadSilenceMsRef = vadSilenceMs,
       vadThresholdRef = vadThreshold, lastVoiceAtRef = 0, hasVoiceRef = False,
       vadIntervalRef = False, stoppingRef = False, sockets = [], stops = [], closes = [],
       pending_media = 0, effects = [] \<rparr>"

definition emit :: "effect \<Rightarrow> session \<Rightarrow> session" where
  "emit e s = s\<lparr>effects := effects s @ [e]\<rparr>"

definition ready :: "session \<Rightarrow> nat \<Rightarrow> ready_state" where
  "ready s i = (if i < length (sockets s) then sockets s ! i else CLOSED)"

definition socket_open :: "session \<Rightarrow> nat option \<Rightarrow> bool" where
  "socket_open s ws = (case ws of None \<Rightarrow> False | Some i \<Rightarrow> ready s i = OPEN)"

text \<open>
  \<^verbatim>\<open>
  const clearVadInterval = useCallback(() => {
      if (vadIntervalRef.current) {
          window.clearInterval(vadIntervalRef.current);
          vadIntervalRef.current = null;
      }
  }, []);
  \<close>
\<close>

definition clearVadInterval :: "session \<Rightarrow> session" where
  "clearVadInterval s = (if vadIntervalRef s then s\<lparr>vadIntervalRef := False\<rparr> else s)"

definition startVadInterval :: "session \<Rightarrow> session" where
  "startVadInterval s = (clearVadInterval s)\<lparr>vadIntervalRef := True\<rparr>"

text \<open>
  \<^verbatim>\<open>
  const updateTranscript = useCallback((nextText: string) => {
      setTranscript((prev) => {
          const merged = mergeTranscript(prev, nextText);
          transcriptRef.current = merged;
          return merged;
      });
  }, [mergeTranscript, setTranscript]);
  \<close>
\<close>

definition updateTranscript :: "jsstring \<Rightarrow> session \<Rightarrow> session" where
  "updateTranscript nextText s =
     s\<lparr>transcript_updates := transcript_updates s @ [Updater nextText]\<rparr>"

text \<open>
  A render applies the queued updates in order. A value replaces the state. The updater
  merges the fragment into the state it finds, and it is here, not in the handler of the
  message, that \<^verbatim>\<open>transcriptRef.current\<close> is written.
\<close>

fun apply_update :: "session \<Rightarrow> state_update \<Rightarrow> session" where
  "apply_update s (Value v) = s\<lparr>transcript := v\<rparr>"
| "apply_update s (Updater nextText) =
     (let merged = mergeTranscript (transcript s) nextText
      in s\<lparr>transcriptRef := merged, transcript := merged\<rparr>)"

definition render :: "session \<Rightarrow> session" where
  "render s = (foldl apply_update s (transcript_updates s))\<lparr>transcript_updates := []\<rparr>"

text \<open>
  \<^verbatim>\<open>
  const cleanupAudio = useCallback(async () => {
      if (processorRef.current) {
          processorRef.current.disconnect();
          processorRef.current.onaudioprocess = null;
          processorRef.current = null;
      }
      if (audioContextRef.current) {
          await audioContextRef.current.close();
          audioContextRef.current = null;
      }
      if (streamRef.current) {
          streamRef.current.getTracks().forEach((track) => track.stop());
          streamRef.current = null;
      }
      clearVadInterval();
  }, []);
  \<close>
  \<open>cleanupAudio cont s\<close> runs to the \<^verbatim>\<open>await\<close> or, without an audio context, to
  the end; the flag says whether it is suspended. A suspended call is recorded in
  \<open>closes\<close> with \<open>cont\<close>, the call of \<^verbatim>\<open>stopRecording\<close> that awaits it, if any.
\<close>

definition cleanupAudio_rest :: "session \<Rightarrow> session" where
  "cleanupAudio_rest s =
     clearVadInterval (if streamRef s then emit TracksStopped (s\<lparr>streamRef := False\<rparr>) else s)"

definition cleanupAudio :: "nat option \<Rightarrow> session \<Rightarrow> bool \<times> session" where
  "cleanupAudio cont s =
     (let s1 = (if processorRef s then emit ProcessorDisconnected (s\<lparr>processorRef := False\<rparr>)
                else s)
      in if audioContextRef s1
         then (True, emit AudioContextClose (s1\<lparr>closes := closes s1 @ [cont]\<rparr>))
         else (False, cleanupAudio_rest s1))"

text \<open>
  \<^verbatim>\<open>
  const stopRecording = useCallback(async (reason: 'manual' | 'vad' = 'manual') => {
      if (stoppingRef.current) {
          return transcriptRef.current.trim();
      }
      stoppingRef.current = true;
      setIsRecording(false);
      setIsConnecting(false);
      isRecordingRef.current = false;
      socketReadyRef.current = false;
      clearVadInterval();
      await cleanupAudio();

      const ws = wsRef.current;
      if (ws && ws.readyState === WebSocket.OPEN) {
          ws.send(JSON.stringify({ type: 'end_of_stream' }));
      }

      const finalizePromise = new Promise<string>((resolve) => {
          finalizeRef.current = (text) => resolve(text);
          setTimeout(() => resolve(transcriptRef.current.trim()), 1500);
      });

      try {
          const finalText = await finalizePromise;
          if (reason === 'vad') {
              onAutoStop?.(finalText);
          }
          return finalText;
      } finally {
          if (ws && ws.readyState === WebSocket.OPEN) {
              ws.close();
          }
          wsRef.current = null;
          stoppingRef.current = false;
      }
  }, [clearVadInterval, cleanupAudio, onAutoStop]);
  \<close>
  \<open>stopRecording\<close> is the call up to its first suspension: it gives the returned text
  when the call returns at once, and nothing while the call is pending. \<open>stop_begin\<close>
  is its part from the guard to \<^verbatim>\<open>cleanupAudio\<close>; it records the new call as
  number \<open>length (stops s)\<close>.
  \<open>stop_after_cleanup k\<close> is the part of call \<open>k\<close> from \<^verbatim>\<open>const ws\<close> to the
  second \<^verbatim>\<open>await\<close>, and \<open>stop_finish k text\<close> the part after it, once the promise
  is resolved with \<open>text\<close>. A promise is resolved once: a later \<^verbatim>\<open>resolve\<close> does
  nothing.
\<close>

definition set_stop :: "nat \<Rightarrow> (stop_call \<Rightarrow> stop_call) \<Rightarrow> session \<Rightarrow> session" where
  "set_stop k f s = (if k < length (stops s) then s\<lparr>stops := (stops s)[k := f (stops s ! k)]\<rparr> else s)"

definition stop_after_cleanup :: "nat \<Rightarrow> session \<Rightarrow> session" where
  "stop_after_cleanup k s =
     (let ws = wsRef s;
          s1 = (if socket_open s ws then emit (SentEndOfStream (the ws)) s else s);
          s2 = set_stop k (\<lambda>c. c\<lparr>ws_of := ws, phase_of := Waiting\<rparr>) s1
      in s2\<lparr>finalizeRef := Some k\<rparr>)"

definition stop_begin :: "reason \<Rightarrow> session \<Rightarrow> session" where
  "stop_begin reason s =
     (let s1 = s\<lparr>stoppingRef := True, isRecording := False, isConnecting := False,
                   isRecordingRef := False, socketReadyRef := False\<rparr>;
          s2 = clearVadInterval s1
      in s2\<lparr>stops := stops s2 @ [\<lparr>reason_of = reason, ws_of = None, phase_of = Cleaning\<rparr>]\<rparr>)"

definition stopRecording :: "reason \<Rightarrow> session \<Rightarrow> jsstring option \<times> session" where
  "stopRecording reason s =
     (if stoppingRef s then (Some (trim (transcriptRef s)), s)
      else
        let k = length (stops s);
            (suspended, s1) = cleanupAudio (Some k) (stop_begin reason s)
        in if suspended then (None, s1) else (None, stop_after_cleanup k s1))"

definition stop_finish :: "nat \<Rightarrow> jsstring \<Rightarrow> session \<Rightarrow> session" where
  "stop_finish k text s =
     (let c = stops s ! k;
          s1 = (if reason_of c = Vad then emit (OnAutoStop text) s else s);
          s2 = (if socket_open s1 (ws_of c)
                then emit (SocketClose (the (ws_of c)))
                       (s1\<lparr>sockets := (sockets s1)[the (ws_of c) := CLOSING]\<rparr>)
                else s1);
          s3 = set_stop k (\<lambda>c. c\<lparr>phase_of := Finished text\<rparr>) s2
      in emit (Returned k text) (s3\<lparr>wsRef := None, stoppingRef := False\<rparr>))"

definition resolve :: "nat \<Rightarrow> jsstring \<Rightarrow> session \<Rightarrow> session" where
  "resolve k text s =
     (if k < length (stops s) \<and> phase_of (stops s ! k) = Waiting then stop_finish k text s else s)"

text \<open>
  The calls on a promise's \<^verbatim>\<open>resolve\<close>: the timer of call \<open>k\<close>, 1.5 seconds after
  the promise was made (the delay is not modelled: the timer can fire at any later
  event), and \<^verbatim>\<open>finalizeRef.current\<close>.
\<close>

definition timeout :: "nat \<Rightarrow> session \<Rightarrow> session" where
  "timeout k s = resolve k (trim (transcriptRef s)) s"

text \<open>
  \<^verbatim>\<open>startRecording\<close>, up to \<^verbatim>\<open>await navigator.mediaDevices.getUserMedia\<close>:
  \<^verbatim>\<open>
  if (isRecording || isConnecting) return;
  setError(undefined);
  setTranscript('');
  transcriptRef.current = '';
  setIsConnecting(true);
  hasVoiceRef.current = false;
  lastVoiceAtRef.current = Date.now();
  \<close>
\<close>

definition startRecording :: "int \<Rightarrow> session \<Rightarrow> session" where
  "startRecording now s =
     (if isRecording s \<or> isConnecting s then s
      else s\<lparr>error_state := None, transcript_updates := transcript_updates s @ [Value []],
             transcriptRef := [], isConnecting := True,
             hasVoiceRef := False, lastVoiceAtRef := now, pending_media := pending_media s + 1\<rparr>)"

text \<open>
  The rest of the \<^verbatim>\<open>try\<close> block, once the microphone is granted: the stream, the
  audio context, the processor with its \<^verbatim>\<open>onaudioprocess\<close> handler and a new web
  socket with its four handlers, which starts in the state CONNECTING.
\<close>

definition start_granted :: "session \<Rightarrow> session" where
  "start_granted s =
     (if pending_media s = 0 then s
      else s\<lparr>pending_media := pending_media s - 1, streamRef := True, audioContextRef := True,
             processorRef := True, wsRef := Some (length (sockets s)),
             sockets := sockets s @ [CONNECTING]\<rparr>)"

text \<open>
  The \<^verbatim>\<open>catch\<close> block, when \<^verbatim>\<open>getUserMedia\<close> is rejected (stage 0) or a later
  statement of the \<^verbatim>\<open>try\<close> block throws: after the stream is stored (stage 1),
  after the audio context is stored (stage 2), or after the processor is stored
  (stage 3).
  \<^verbatim>\<open>
  setError(err as Error);
  setIsConnecting(false);
  setIsRecording(false);
  isRecordingRef.current = false;
  await cleanupAudio();
  \<close>
\<close>

definition start_failed :: "nat \<Rightarrow> jsstring \<Rightarrow> session \<Rightarrow> session" where
  "start_failed stage message s =
     (if pending_media s = 0 then s
      else
        let s1 = s\<lparr>pending_media := pending_media s - 1,
                   streamRef := (1 \<le> stage \<or> streamRef s),
                   audioContextRef := (2 \<le> stage \<or> audioContextRef s),
                   processorRef := (3 \<le> stage \<or> processorRef s)\<rparr>;
            s2 = s1\<lparr>error_state := Some message, isConnecting := False, isRecording := False,
                    isRecordingRef := False\<rparr>
        in snd (cleanupAudio None s2))"

text \<open>
  The continuation of \<^verbatim>\<open>cleanupAudio\<close> after \<^verbatim>\<open>await audioContextRef.current.close()\<close>,
  for the \<open>j\<close>-th pending call, and then of the \<^verbatim>\<open>stopRecording\<close> that awaits it.
\<close>

definition audio_closed :: "nat \<Rightarrow> session \<Rightarrow> session" where
  "audio_closed j s =
     (if j < length (closes s) then
        let cont = closes s ! j;
            s1 = s\<lparr>closes := take j (closes s) @ drop (j + 1) (closes s)\<rparr>;
            s2 = cleanupAudio_rest (s1\<lparr>audioContextRef := False\<rparr>)
        in (case cont of None \<Rightarrow> s2 | Some k \<Rightarrow> stop_after_cleanup k s2)
      else s)"

text \<open>
  The interval callback of \<^verbatim>\<open>startVadInterval\<close>, every 150 ms while the interval is
  set, with the \<^verbatim>\<open>triggerStop\<close> that \<^verbatim>\<open>ws.onopen\<close> passes:
  \<^verbatim>\<open>
  if (!isRecordingRef.current || !vadEnabledRef.current) return;
  if (!hasVoiceRef.current) return;
  const silenceFor = Date.now() - lastVoiceAtRef.current;
  if (silenceFor >= vadSilenceMsRef.current) {
      triggerStop();        // () => { if (!stoppingRef.current) void stopRecording('vad'); }
  }
  \<close>
  The flag of \<open>vad_tick\<close> says whether \<^verbatim>\<open>triggerStop\<close> was called.
\<close>

definition triggerStop :: "session \<Rightarrow> session" where
  "triggerStop s = (if \<not> stoppingRef s then snd (stopRecording Vad s) else s)"

definition vad_tick :: "int \<Rightarrow> session \<Rightarrow> bool \<times> session" where
  "vad_tick now s =
     (if \<not> vadIntervalRef s then (False, s)
      else if \<not> isRecordingRef s \<or> \<not> vadEnabledRef s then (False, s)
      else if \<not> hasVoiceRef s then (False, s)
      else if vadSilenceMsRef s \<le> now - lastVoiceAtRef s then (True, triggerStop s)
      else (False, s))"

text \<open>
  \<^verbatim>\<open>
  processor.onaudioprocess = (event) => {
      if (!socketReadyRef.current || !wsRef.current || wsRef.current.readyState !== WebSocket.OPEN) {
          return;
      }
      const input = event.inputBuffer.getChannelData(0);
      ... rms ...
      if (rms > vadThresholdRef.current) {
          lastVoiceAtRef.current = Date.now();
          hasVoiceRef.current = true;
      }
      const downsampled = downsampleBuffer(input, audioContext.sampleRate, TARGET_SAMPLE_RATE);
      const pcm16 = floatTo16BitPCM(downsampled);
      wsRef.current.send(pcm16.buffer);
  };
  \<close>
  An exception of \<^verbatim>\<open>downsampleBuffer\<close> ends the handler before the send.
\<close>

definition TARGET_SAMPLE_RATE :: number where
  "TARGET_SAMPLE_RATE = Finite 24000"

definition frame_accepted :: "session \<Rightarrow> bool" where
  "frame_accepted s \<longleftrightarrow> socketReadyRef s \<and> socket_open s (wsRef s)"

definition onaudioprocess :: "int \<Rightarrow> number \<Rightarrow> number list \<Rightarrow> number \<Rightarrow> session \<Rightarrow> session" where
  "onaudioprocess now rms input sampleRate s =
     (if \<not> frame_accepted s then s
      else
        let s1 = (if lt (vadThresholdRef s) rms
                  then s\<lparr>lastVoiceAtRef := now, hasVoiceRef := True\<rparr> else s)
        in case downsampleBuffer input sampleRate TARGET_SAMPLE_RATE of
             Inl e \<Rightarrow> s1
           | Inr downsampled \<Rightarrow> emit (SentAudio (the (wsRef s1)) (floatTo16BitPCM downsampled)) s1)"

text \<open>
  The handlers of a web socket. The platform sets the ready state before it calls
  \<^verbatim>\<open>onopen\<close> and \<^verbatim>\<open>onclose\<close>, and delivers messages only while the socket is
  open.
  \<^verbatim>\<open>
  ws.onopen = () => {
      socketReadyRef.current = true;
      setIsRecording(true);
      setIsConnecting(false);
      isRecordingRef.current = true;
      if (vadEnabledRef.current) {
          startVadInterval(() => { if (!stoppingRef.current) { void stopRecording('vad'); } });
      }
  };
  \<close>
\<close>

definition onopen :: "nat \<Rightarrow> session \<Rightarrow> session" where
  "onopen i s =
     (if ready s i \<noteq> CONNECTING then s
      else
        let s1 = s\<lparr>sockets := (sockets s)[i := OPEN]\<rparr>;
            s2 = s1\<lparr>socketReadyRef := True, isRecording := True, isConnecting := False,
                    isRecordingRef := True\<rparr>
        in if vadEnabledRef s2 then startVadInterval s2 else s2)"

text \<open>
  The data of a message event, as \<^verbatim>\<open>ws.onmessage\<close> tells them apart: not a string;
  a string that \<^verbatim>\<open>JSON.parse\<close> rejects, or whose value has no \<^verbatim>\<open>type\<close> the
  handler knows; a text fragment; one of the two finalize signals; an error with its
  optional detail.
  \<^verbatim>\<open>
  if (data.type === 'text' && typeof data.text === 'string') {
      updateTranscript(data.text);
      onTranscript?.(transcriptRef.current);
  }
  if (data.type === 'end_text' || data.type === 'end_of_stream') {
      const finalText = transcriptRef.current.trim();
      finalizeRef.current?.(finalText);
      onFinalTranscript?.(finalText);
      finalizeRef.current = null;
  }
  if (data.type === 'error') {
      setError(new Error(data.detail || 'Voice input error'));
  }
  \<close>
  The continuation of the \<^verbatim>\<open>stopRecording\<close> whose promise is resolved runs after
  the handler has ended.
\<close>

datatype message = NotAString | Ignored | TextFragment jsstring | EndText | EndOfStream
  | ErrorSignal "jsstring option"

definition finalize :: "session \<Rightarrow> session" where
  "finalize s =
     (let finalText = trim (transcriptRef s);
          s1 = (emit (OnFinalTranscript finalText) s)\<lparr>finalizeRef := None\<rparr>
      in case finalizeRef s of None \<Rightarrow> s1 | Some k \<Rightarrow> resolve k finalText s1)"

fun handle_message :: "message \<Rightarrow> session \<Rightarrow> session" where
  "handle_message (TextFragment text) s =
     (let s1 = updateTranscript text s in emit (OnTranscript (transcriptRef s1)) s1)"
| "handle_message EndText s = finalize s"
| "handle_message EndOfStream s = finalize s"
| "handle_message (ErrorSignal detail) s =
     s\<lparr>error_state := Some (case detail of None \<Rightarrow> js ''Voice input error''
                              | Some d \<Rightarrow> if d = [] then js ''Voice input error'' else d)\<rparr>"
| "handle_message _ s = s"

definition onmessage :: "nat \<Rightarrow> message \<Rightarrow> session \<Rightarrow> session" where
  "onmessage i m s = (if ready s i = OPEN then handle_message m s else s)"

text \<open>
  \<^verbatim>\<open>
  ws.onerror = () => { setError(new Error('Voice input connection failed')); };
  ws.onclose = () => {
      socketReadyRef.current = false;
      setIsRecording(false);
      setIsConnecting(false);
      isRecordingRef.current = false;
      void cleanupAudio();
  };
  \<close>
\<close>

definition onerror :: "nat \<Rightarrow> session \<Rightarrow> session" where
  "onerror i s =
     (if i < length (sockets s) then s\<lparr>error_state := Some (js ''Voice input connection failed'')\<rparr>
      else s)"

definition onclose :: "nat \<Rightarrow> session \<Rightarrow> session" where
  "onclose i s =
     (if i < length (sockets s) \<and> ready s i \<noteq> CLOSED then
        let s1 = s\<lparr>sockets := (sockets s)[i := CLOSED]\<rparr>;
            s2 = s1\<lparr>socketReadyRef := False, isRecording := False, isConnecting := False,
                    isRecordingRef := False\<rparr>
        in snd (cleanupAudio None s2)
      else s)"

text \<open>
  The effect that copies the options into their refs after a render:
  \<^verbatim>\<open>
  useEffect(() => {
      vadEnabledRef.current = vadEnabled;
      vadSilenceMsRef.current = vadSilenceMs;
      vadThresholdRef.current = vadThreshold;
  }, [vadEnabled, vadSilenceMs, vadThreshold]);
  \<close>
\<close>

definition set_options :: "bool \<Rightarrow> int \<Rightarrow> number \<Rightarrow> session \<Rightarrow> session" where
  "set_options vadEnabled vadSilenceMs vadThreshold s =
     s\<lparr>vadEnabledRef := vadEnabled, vadSilenceMsRef := vadSilenceMs,
       vadThresholdRef := vadThreshold\<rparr>"

text \<open>
  The events of a session, and a run of the hook over a sequence of events. A call of
  \<^verbatim>\<open>stopRecording\<close> that returns at once logs the text it returns. A render of
  the component is an event like the others, and may come between any two of them.
\<close>

datatype event =
    StartRecording int
  | MediaGranted
  | MediaFailed nat jsstring
  | StopRecording reason
  | AudioClosed nat
  | Timeout nat
  | VadTick int
  | AudioProcess int number "number list" number
  | WsOpen nat
  | WsMessage nat message
  | WsError nat
  | WsClose nat
  | SetOptions bool int number
  | Render

fun step :: "event \<Rightarrow> session \<Rightarrow> session" where
  "step (StartRecording now) s = startRecording now s"
| "step MediaGranted s = start_granted s"
| "step (MediaFailed stage message) s = start_failed stage message s"
| "step (StopRecording reason) s =
     (case stopRecording reason s of
        (Some text, s') \<Rightarrow> emit (ReturnedEarly text) s'
      | (None, s') \<Rightarrow> s')"
| "step (AudioClosed j) s = audio_closed j s"
| "step (Timeout k) s = timeout k s"
| "step (VadTick now) s = snd (vad_tick now s)"
| "step (AudioProcess now rms input sampleRate) s = onaudioprocess now rms input sampleRate s"
| "step (WsOpen i) s = onopen i s"
| "step (WsMessage i m) s = onmessage i m s"
| "step (WsError i) s = onerror i s"
| "step (WsClose i) s = onclose i s"
| "step (SetOptions e ms t) s = set_options e ms t s"
| "step Render s = render s"

fun run :: "session \<Rightarrow> event list \<Rightarrow> session" where
  "run s [] = s"
| "run s (e # es) = run (step e s) es"

text \<open>
  The older variant of the hook has no voice-activity detection and no
  \<^verbatim>\<open>stoppingRef\<close>; its \<^verbatim>\<open>stopRecording\<close> begins without a guard:
  \<^verbatim>\<open>
  const stopRecording = useCallback(async () => {
      setIsRecording(false);
      setIsConnecting(false);
      socketReadyRef.current = false;
      await cleanupAudio();
      ...
  \<close>
  and goes on as the newer one does, from \<^verbatim>\<open>const ws = wsRef.current\<close> to the
  \<^verbatim>\<open>finally\<close> block, which does not touch a stopping flag. On the state of the
  model, with the detection disabled, its other handlers are those above.
\<close>

definition stopRecording_old :: "session \<Rightarrow> session" where
  "stopRecording_old s =
     (let k = length (stops s);
          s1 = s\<lparr>isRecording := False, isConnecting := False, socketReadyRef := False\<rparr>;
          s2 = s1\<lparr>stops := stops s1 @ [\<lparr>reason_of = Manual, ws_of = None, phase_of = Cleaning\<rparr>]\<rparr>;
          (suspended, s3) = cleanupAudio (Some k) s2
      in if suspended then s3 else stop_after_cleanup k s3)"

text \<open>
  The texts the hook hands out as final: what \<^verbatim>\<open>stopRecording\<close> returns, and the
  arguments of \<^verbatim>\<open>onFinalTranscript\<close> and \<^verbatim>\<open>onAutoStop\<close>. A string is trimmed
  when it neither starts nor ends with whitespace.
\<close>

fun final_text :: "effect \<Rightarrow> jsstring option" where
  "final_text (Returned k text) = Some text"
| "final_text (ReturnedEarly text) = Some text"
| "final_text (OnFinalTranscript text) = Some text"
| "final_text (OnAutoStop text) = Some text"
| "final_text _ = None"

definition trimmed :: "jsstring \<Rightarrow> bool" where
  "trimmed t \<longleftrightarrow> t = [] \<or> (\<not> isWhiteSpace (hd t) \<and> \<not> isWhiteSpace (last t))"

definition finals_trimmed :: "effect list \<Rightarrow> bool" where
  "finals_trimmed es = list_all (\<lambda>e. case final_text e of None \<Rightarrow> True | Some t \<Rightarrow> trimmed t) es"

text \<open>
  For the voice-activity detection: a frame event that the handler accepts and whose
  energy exceeds the threshold, which is where \<^verbatim>\<open>hasVoiceRef\<close> is set; a call of
  \<^verbatim>\<open>startRecording\<close> that passes its guard, which is where a session begins and
  \<^verbatim>\<open>hasVoiceRef\<close> is reset; and a sequence of events without such a call.
\<close>

fun voiced_frame :: "session \<Rightarrow> event \<Rightarrow> bool" where
  "voiced_frame s (AudioProcess now rms input sampleRate) =
     (frame_accepted s \<and> lt (vadThresholdRef s) rms)"
| "voiced_frame s _ = False"

fun begins_session :: "session \<Rightarrow> event \<Rightarrow> bool" where
  "begins_session s (StartRecording now) = (\<not> (isRecording s \<or> isConnecting s))"
| "begins_session s _ = False"

fun same_session :: "session \<Rightarrow> event list \<Rightarrow> bool" where
  "same_session s [] = True"
| "same_session s (e # es) = (\<not> begins_session s e \<and> same_session (step e s) es)"

text \<open>
  The events that can write \<^verbatim>\<open>transcriptRef\<close>: a render, which runs the queued
  updaters, and a call of \<^verbatim>\<open>startRecording\<close>, which empties it.
\<close>

fun changes_transcript :: "event \<Rightarrow> bool" where
  "changes_transcript Render = True"
| "changes_transcript (StartRecording now) = True"
| "changes_transcript _ = False"

text \<open>
  A session from the start of a recording to the end of its stop, for the examples: the
  service sends a fragment and React renders, the caller stops, the audio context
  closes, the caller stops again while the first stop waits, the service sends the
  final fragment, React renders, and the service sends its finalize signal.
\<close>

definition example_run :: "event list" where
  "example_run =
     [StartRecording 0, MediaGranted, WsOpen 0, WsMessage 0 (TextFragment (js '' hello '')),
      Render, StopRecording Manual, AudioClosed 0, StopRecording Manual,
      WsMessage 0 (TextFragment (js ''hello world'')), Render, WsMessage 0 EndText]"

definition example_initial :: session where
  "example_initial = initial False 1500 (Finite (1 / 64))"

subsection \<open>Facts about trimming\<close>

lemma startsWith_prefix: "startsWith s p \<longleftrightarrow> prefix p s"
  by (auto simp: startsWith_def prefix_def) (metis append_take_drop_id)

lemma trim_Nil [simp]: "trim [] = []"
  by (simp add: trim_def)

lemma trim_hd: "trim s \<noteq> [] \<Longrightarrow> \<not> isWhiteSpace (hd (trim s))"
proof -
  assume a: "trim s \<noteq> []"
  let ?d = "dropWhile isWhiteSpace s"
  have t: "trim s = rev (dropWhile isWhiteSpace (rev ?d))" by (simp add: trim_def)
  have "?d \<noteq> []"
  proof
    assume "?d = []"
    then have "trim s = []" unfolding trim_def by (simp only: rev.simps dropWhile.simps)
    with a show False by simp
  qed
  then have h: "\<not> isWhiteSpace (hd ?d)" by (simp add: hd_dropWhile)
  have "?d = trim s @ rev (takeWhile isWhiteSpace (rev ?d))"
    unfolding t by (metis rev_append rev_rev_ident takeWhile_dropWhile_id)
  then have "hd ?d = hd (trim s)" using a by (metis hd_append2)
  with h show ?thesis by simp
qed

lemma trim_last: "trim s \<noteq> [] \<Longrightarrow> \<not> isWhiteSpace (last (trim s))"
proof -
  assume a: "trim s \<noteq> []"
  let ?r = "dropWhile isWhiteSpace (rev (dropWhile isWhiteSpace s))"
  have "?r \<noteq> []" using a by (simp add: trim_def)
  then have "\<not> isWhiteSpace (hd ?r)" by (simp add: hd_dropWhile)
  then show ?thesis using \<open>?r \<noteq> []\<close> by (simp add: trim_def last_rev)
qed

lemma trim_no_leading: "s = [] \<or> \<not> isWhiteSpace (hd s) \<Longrightarrow> prefix (trim s) s"
proof -
  assume "s = [] \<or> \<not> isWhiteSpace (hd s)"
  then have d: "dropWhile isWhiteSpace s = s" by (cases s) auto
  have "s = trim s @ rev (takeWhile isWhiteSpace (rev s))"
    unfolding trim_def d by (metis rev_append rev_rev_ident takeWhile_dropWhile_id)
  then show ?thesis by (metis prefixI)
qed

lemma trim_all_ws: "list_all isWhiteSpace s \<Longrightarrow> trim s = []"
  by (auto simp: trim_def list_all_iff dest: set_dropWhileD)

lemma trim_not_all_ws: "\<not> list_all isWhiteSpace s \<Longrightarrow> trim s \<noteq> []"
proof -
  assume "\<not> list_all isWhiteSpace s"
  then have d: "dropWhile isWhiteSpace s \<noteq> []" by (simp add: list_all_iff)
  then have "\<not> isWhiteSpace (hd (dropWhile isWhiteSpace s))" by (simp add: hd_dropWhile)
  moreover have "hd (dropWhile isWhiteSpace s) \<in> set (dropWhile isWhiteSpace s)"
    using d by (rule hd_in_set)
  ultimately show ?thesis by (auto simp: trim_def)
qed

lemma doubled_ws_Cons:
  "doubled_ws (a # s) \<longleftrightarrow> (s \<noteq> [] \<and> isWhiteSpace a \<and> isWhiteSpace (hd s)) \<or> doubled_ws s"
  by (cases s) auto

lemma doubled_ws_append:
  "doubled_ws (a @ b) \<longleftrightarrow>
     doubled_ws a \<or> doubled_ws b \<or> (a \<noteq> [] \<and> b \<noteq> [] \<and> isWhiteSpace (last a) \<and> isWhiteSpace (hd b))"
proof (induction a)
  case Nil
  then show ?case by simp
next
  case (Cons x a)
  then show ?case by (cases a) (auto simp: doubled_ws_Cons)
qed

lemma doubled_ws_rev: "doubled_ws (rev s) = doubled_ws s"
proof (induction s)
  case Nil
  then show ?case by simp
next
  case (Cons a s)
  have "doubled_ws (rev s @ [a]) \<longleftrightarrow> doubled_ws (rev s) \<or> (s \<noteq> [] \<and> isWhiteSpace (hd s) \<and> isWhiteSpace a)"
    by (auto simp: doubled_ws_append last_rev)
  with Cons.IH show ?case by (auto simp: doubled_ws_Cons)
qed

lemma doubled_ws_dropWhile: "\<not> doubled_ws s \<Longrightarrow> \<not> doubled_ws (dropWhile P s)"
proof -
  assume a: "\<not> doubled_ws s"
  have "s = takeWhile P s @ dropWhile P s" by simp
  then have "doubled_ws (dropWhile P s) \<longrightarrow> doubled_ws s"
    by (metis doubled_ws_append)
  with a show ?thesis by blast
qed

lemma doubled_ws_trim: "\<not> doubled_ws s \<Longrightarrow> \<not> doubled_ws (trim s)"
  unfolding trim_def by (simp add: doubled_ws_rev doubled_ws_dropWhile)

lemma trim_id: "s \<noteq> [] \<Longrightarrow> \<not> isWhiteSpace (hd s) \<Longrightarrow> \<not> isWhiteSpace (last s) \<Longrightarrow> trim s = s"
proof -
  assume ne: "s \<noteq> []" and h: "\<not> isWhiteSpace (hd s)" and l: "\<not> isWhiteSpace (last s)"
  from ne h have d: "dropWhile isWhiteSpace s = s" by (cases s) auto
  from ne l have "dropWhile isWhiteSpace (rev s) = rev s"
    by (cases "rev s") (auto simp: last_rev [symmetric] hd_rev)
  with d show ?thesis by (simp add: trim_def)
qed

subsection \<open>Properties of the merger\<close>

text \<open>
  Claim C1. For every pair of strings, \<open>mergeTranscript\<close> returns what the four-step
  policy prescribes, the steps applied in order: the trimmed incoming when the previous
  transcript is empty; the trimmed incoming when it starts with the previous transcript;
  the previous transcript when it starts with the trimmed incoming; otherwise the two
  joined by one space, then trimmed.
\<close>

theorem mergeTranscript_policy: "mergeTranscript prev incoming = merge_policy prev incoming"
  by (simp add: mergeTranscript_def merge_policy_def startsWith_prefix Let_def)

text \<open>
  Claim C2, as amended. \<open>mergeTranscript x x = x\<close> holds exactly of the strings that
  do not begin with whitespace, or are whitespace only: the empty string, every trimmed
  string and every string whose only surplus whitespace is trailing. Of a string with
  leading whitespace before other text it fails: the incoming copy is trimmed, the
  previous one is not, neither is a prefix of the other, and the two are concatenated.
\<close>

theorem merge_idem_iff:
  "mergeTranscript x x = x \<longleftrightarrow> (x = [] \<or> \<not> isWhiteSpace (hd x) \<or> list_all isWhiteSpace x)"
proof (cases "x = []")
  case True
  then show ?thesis by (simp add: mergeTranscript_def)
next
  case ne: False
  show ?thesis
  proof (cases "isWhiteSpace (hd x)")
    case False
    then have p: "prefix (trim x) x" by (simp add: trim_no_leading)
    have "mergeTranscript x x = x"
      using p ne by (auto simp: mergeTranscript_def Let_def startsWith_prefix)
    with False show ?thesis by simp
  next
    case ws: True
    show ?thesis
    proof (cases "list_all isWhiteSpace x")
      case True
      then have "trim x = []" by (rule trim_all_ws)
      then have "mergeTranscript x x = x"
        using ne by (simp add: mergeTranscript_def Let_def startsWith_prefix)
      with True show ?thesis by simp
    next
      case False
      then have c: "trim x \<noteq> []" by (rule trim_not_all_ws)
      then have h: "\<not> isWhiteSpace (hd (trim x))" by (rule trim_hd)
      have n1: "\<not> prefix x (trim x)"
        using ne c h ws by (metis hd_append2 prefixE)
      have n2: "\<not> prefix (trim x) x"
        using ne c h ws by (metis hd_append2 prefixE)
      have m: "mergeTranscript x x = trim (x @ [0x0020] @ trim x)"
        using ne n1 n2 by (simp add: mergeTranscript_def Let_def startsWith_prefix)
      have "trim (x @ [0x0020] @ trim x) \<noteq> x"
      proof
        assume e: "trim (x @ [0x0020] @ trim x) = x"
        then have "trim (x @ [0x0020] @ trim x) \<noteq> []" using ne by simp
        then have "\<not> isWhiteSpace (hd (trim (x @ [0x0020] @ trim x)))" by (rule trim_hd)
        with e ws show False by simp
      qed
      with m False ws ne show ?thesis by simp
    qed
  qed
qed

theorem merge_idem_iff_witness:
  "mergeTranscript (js ''hello '') (js ''hello '') = js ''hello ''"
  using merge_idem_iff [of "js ''hello ''"]
  by (simp add: js_def isWhiteSpace_def)

text \<open>
  The claim as stated fails at \<open>x = " a"\<close>: the merge of the string with itself is
  \<open>"a a"\<close>.
\<close>

theorem merge_idem_counterexample:
  "mergeTranscript (js '' a'') (js '' a'') = js ''a a'' \<and> js ''a a'' \<noteq> js '' a''"
  by (simp add: mergeTranscript_def trim_def startsWith_def js_def isWhiteSpace_def)

text \<open>
  Claim C8, as amended. When neither input contains doubled whitespace and the previous
  transcript does not end in whitespace, the result contains no doubled whitespace. In
  the disjoint-continuation branch, with a previous transcript that is already trimmed
  (as every transcript the session holds is), the result is the previous transcript,
  exactly one space and the trimmed incoming fragment; so
  \<open>merge("portfolio is", "down today") = "portfolio is down today"\<close>.
\<close>

theorem merge_no_doubled_ws:
  "(\<not> doubled_ws prev \<and> \<not> doubled_ws incoming \<and> (prev = [] \<or> \<not> isWhiteSpace (last prev))
      \<longrightarrow> \<not> doubled_ws (mergeTranscript prev incoming)) \<and>
   (prev \<noteq> [] \<and> trim prev = prev \<and> \<not> startsWith (trim incoming) prev \<and>
      \<not> startsWith prev (trim incoming)
      \<longrightarrow> mergeTranscript prev incoming = prev @ [0x0020] @ trim incoming) \<and>
   mergeTranscript (js ''portfolio is'') (js ''down today'') = js ''portfolio is down today''"
proof (intro conjI impI)
  assume a: "\<not> doubled_ws prev \<and> \<not> doubled_ws incoming \<and> (prev = [] \<or> \<not> isWhiteSpace (last prev))"
  let ?c = "trim incoming"
  have c: "\<not> doubled_ws ?c" using a by (simp add: doubled_ws_trim)
  have hc: "?c = [] \<or> \<not> isWhiteSpace (hd ?c)" using trim_hd by blast
  have "\<not> doubled_ws (prev @ [0x0020] @ ?c)" if "prev \<noteq> []"
    using a c hc that by (cases ?c) (auto simp: doubled_ws_append)
  then have "\<not> doubled_ws (trim (prev @ [0x0020] @ ?c))" if "prev \<noteq> []"
    using that by (simp add: doubled_ws_trim)
  then show "\<not> doubled_ws (mergeTranscript prev incoming)"
    using a c by (auto simp: mergeTranscript_def Let_def)
next
  assume b: "prev \<noteq> [] \<and> trim prev = prev \<and> \<not> startsWith (trim incoming) prev \<and>
      \<not> startsWith prev (trim incoming)"
  let ?c = "trim incoming"
  have cne: "?c \<noteq> []" using b by (auto simp: startsWith_def)
  then have lc: "\<not> isWhiteSpace (last ?c)" by (rule trim_last)
  have "trim prev \<noteq> []" using b by simp
  then have "\<not> isWhiteSpace (hd (trim prev))" by (rule trim_hd)
  then have hp: "\<not> isWhiteSpace (hd prev)" using b by simp
  have "trim (prev @ [0x0020] @ ?c) = prev @ [0x0020] @ ?c"
    using b cne lc hp by (intro trim_id) auto
  then show "mergeTranscript prev incoming = prev @ [0x0020] @ trim incoming"
    using b by (simp add: mergeTranscript_def Let_def)
next
  show "mergeTranscript (js ''portfolio is'') (js ''down today'') = js ''portfolio is down today''"
    by (simp add: mergeTranscript_def trim_def startsWith_def js_def isWhiteSpace_def)
qed

theorem merge_no_doubled_ws_witness:
  "\<not> doubled_ws (mergeTranscript (js ''portfolio is'') (js ''down today'')) \<and>
   mergeTranscript (js ''portfolio is'') (js ''down today'')
     = js ''portfolio is'' @ [0x0020] @ trim (js ''down today'')"
  using merge_no_doubled_ws [of "js ''portfolio is''" "js ''down today''"]
  by (simp add: trim_def startsWith_def js_def isWhiteSpace_def)

text \<open>
  The claim as stated fails: the merger does not normalise whitespace inside its
  inputs, so an incoming fragment with two adjacent spaces is adopted as it is.
\<close>

theorem merge_doubled_ws_counterexample:
  "mergeTranscript (js '''') (js ''a  b'') = js ''a  b'' \<and> doubled_ws (js ''a  b'')"
  by (simp add: mergeTranscript_def trim_def startsWith_def js_def isWhiteSpace_def)

text \<open>
  The hypothesis on the end of the previous transcript is needed: a previous transcript
  with a trailing space and a fragment, neither with doubled whitespace, merge into a
  string with two adjacent spaces.
\<close>

lemma merge_creates_doubled_ws:
  "\<not> doubled_ws (js ''a '') \<and> \<not> doubled_ws (js ''b'') \<and>
   doubled_ws (mergeTranscript (js ''a '') (js ''b''))"
  by (simp add: mergeTranscript_def trim_def startsWith_def js_def isWhiteSpace_def)

text \<open>
  The steps of the policy on the examples of the specification: a longer version of the
  same utterance is adopted, a shorter repeat is ignored, and the first fragment is
  trimmed.
\<close>

lemma merge_examples:
  "mergeTranscript (js ''hello'') (js ''hello world'') = js ''hello world''"
  "mergeTranscript (js ''hello world'') (js ''hello'') = js ''hello world''"
  "mergeTranscript [] (js '' port '') = js ''port''"
  "mergeTranscript (js ''hello'') (js ''hello'') = js ''hello''"
  by (simp_all add: mergeTranscript_def trim_def startsWith_def js_def isWhiteSpace_def)

subsection \<open>Facts about rounding\<close>

lemma ilog2_le:
  assumes "0 < x"
  shows "2 powi (ilog2 x) \<le> x"
proof (cases "1 \<le> x")
  case True
  then have n: "0 < \<lfloor>x\<rfloor>" by linarith
  then have b: "1 \<le> bitlen \<lfloor>x\<rfloor>" by (simp add: bitlen_alt_def)
  from bitlen_bounds [OF n] have "(2::int) ^ nat (bitlen \<lfloor>x\<rfloor> - 1) \<le> \<lfloor>x\<rfloor>" by simp
  then have "rat_of_int (2 ^ nat (bitlen \<lfloor>x\<rfloor> - 1)) \<le> rat_of_int \<lfloor>x\<rfloor>"
    by (simp only: of_int_le_iff)
  also have "\<dots> \<le> x" by simp
  finally have "(2::rat) ^ nat (bitlen \<lfloor>x\<rfloor> - 1) \<le> x" by simp
  moreover have "ilog2 x = bitlen \<lfloor>x\<rfloor> - 1" using True by (simp add: ilog2_def)
  ultimately show ?thesis using b by (simp add: power_int_def)
next
  case False
  define c where "c = \<lceil>1 / x\<rceil>"
  define j where "j = bitlen (c - 1)"
  have "1 < 1 / x" using False assms by simp
  then have c: "0 < c - 1" unfolding c_def by linarith
  have j0: "0 \<le> j" unfolding j_def by (rule bitlen_nonneg)
  from bitlen_bounds [OF c] have "c - 1 < 2 ^ nat j" unfolding j_def by simp
  then have "c \<le> 2 ^ nat j" by simp
  then have "rat_of_int c \<le> rat_of_int (2 ^ nat j)" by (simp only: of_int_le_iff)
  then have "rat_of_int c \<le> 2 ^ nat j" by simp
  moreover have "1 / x \<le> rat_of_int c" unfolding c_def by simp
  ultimately have "1 / x \<le> 2 ^ nat j" by linarith
  then have "1 \<le> 2 ^ nat j * x" using assms by (simp add: field_simps)
  then have "inverse (2 ^ nat j) \<le> x"
    by (simp add: field_simps)
  moreover have "ilog2 x = - j" using False by (simp add: ilog2_def c_def j_def)
  moreover have "(2::rat) powi (- j) = inverse (2 ^ nat j)"
  proof -
    have "(2::rat) powi j = 2 ^ nat j" using j0 by (simp add: power_int_def)
    then show ?thesis by (simp only: power_int_minus)
  qed
  ultimately show ?thesis by simp
qed

lemma rne_cases: "rne x = \<lfloor>x\<rfloor> \<or> (rne x = \<lfloor>x\<rfloor> + 1 \<and> rat_of_int \<lfloor>x\<rfloor> < x)"
proof -
  have "rat_of_int \<lfloor>x\<rfloor> < x" if "1 / 2 \<le> x - rat_of_int \<lfloor>x\<rfloor>"
    using that by linarith
  then show ?thesis by (auto simp: rne_def Let_def not_less)
qed

lemma rne_le: "x \<le> rat_of_int M \<Longrightarrow> rne x \<le> M"
proof -
  assume a: "x \<le> rat_of_int M"
  then have f: "\<lfloor>x\<rfloor> \<le> M" by (simp add: floor_le_iff)
  have "\<lfloor>x\<rfloor> < M" if "rat_of_int \<lfloor>x\<rfloor> < x"
  proof -
    from that a have "rat_of_int \<lfloor>x\<rfloor> < rat_of_int M" by linarith
    then show ?thesis by simp
  qed
  with f rne_cases [of x] show ?thesis by auto
qed

lemma rne_ge: "rat_of_int M \<le> x \<Longrightarrow> M \<le> rne x"
proof -
  assume "rat_of_int M \<le> x"
  then have "M \<le> \<lfloor>x\<rfloor>" by (simp add: le_floor_iff)
  with rne_cases [of x] show ?thesis by auto
qed


lemma fl_nonneg:
  assumes "0 \<le> x"
  shows "fl p emin emax x = PosInf \<or> (\<exists>y. fl p emin emax x = Finite y \<and> 0 \<le> y)"
proof (cases "x = 0")
  case True
  then show ?thesis by (simp add: fl_def)
next
  case False
  define u :: rat where "u = 2 powi (max (ilog2 \<bar>x\<bar>) emin - int p + 1)"
  have u: "0 < u" unfolding u_def by simp
  then have "rat_of_int 0 \<le> x / u" using assms by simp
  then have "0 \<le> rne (x / u)" by (rule rne_ge)
  then have "0 \<le> rat_of_int (rne (x / u)) * u" using u by simp
  then show ?thesis using False assms unfolding u_def by (auto simp: fl_def Let_def)
qed

lemma fl_nonpos:
  assumes "x \<le> 0"
  shows "fl p emin emax x = NegInf \<or> (\<exists>y. fl p emin emax x = Finite y \<and> y \<le> 0)"
proof (cases "x = 0")
  case True
  then show ?thesis by (simp add: fl_def)
next
  case False
  define u :: rat where "u = 2 powi (max (ilog2 \<bar>x\<bar>) emin - int p + 1)"
  have u: "0 < u" unfolding u_def by simp
  then have "x / u \<le> rat_of_int 0" using assms by (simp add: divide_nonpos_pos)
  then have "rne (x / u) \<le> 0" by (rule rne_le)
  then have "rat_of_int (rne (x / u)) * u \<le> 0" using u by (simp add: mult_nonpos_nonneg)
  then show ?thesis using False assms unfolding u_def by (auto simp: fl_def Let_def)
qed


lemma ilog2_le_exp:
  assumes "0 < x" "x \<le> 2 ^ p"
  shows "ilog2 x \<le> int p"
proof -
  have "(2::rat) powi (ilog2 x) \<le> 2 powi (int p)"
    using ilog2_le [OF assms(1)] assms(2) by simp
  then show ?thesis by (rule power_int_le_imp_le_exp [rotated]) simp_all
qed

lemma fl_bounded:
  assumes x: "\<bar>x\<bar> \<le> of_nat k" and k: "k \<le> 2 ^ p"
    and p: "0 < p" "int p < emax" and emin: "emin \<le> 0"
  shows "\<exists>y. fl p emin emax x = Finite y \<and> \<bar>y\<bar> \<le> of_nat k"
proof (cases "x = 0")
  case True
  then show ?thesis by (simp add: fl_def)
next
  case False
  define il where "il = ilog2 \<bar>x\<bar>"
  define e where "e = max il emin"
  define u :: rat where "u = 2 powi (e - int p + 1)"
  define m where "m = rne (x / u)"
  have u0: "0 < u" unfolding u_def by simp
  have ax: "0 < \<bar>x\<bar>" using False by simp
  have k2: "(of_nat k :: rat) \<le> 2 ^ p"
  proof -
    have "(of_nat k :: rat) \<le> of_nat (2 ^ p)" using k by (simp only: of_nat_le_iff)
    then show ?thesis by simp
  qed
  have xp: "\<bar>x\<bar> \<le> 2 ^ p" using x k2 by linarith
  have il: "il \<le> int p" unfolding il_def using ax xp by (rule ilog2_le_exp)
  have e: "e \<le> int p" unfolding e_def using il emin p by simp
  have ne: "\<not> emax < e" "e \<noteq> emax" using e p by simp_all
  have "fl p emin emax x =
      (if emax < e \<or> (e = emax \<and> \<bar>m\<bar> = 2 ^ p) then (if 0 < x then PosInf else NegInf)
       else Finite (of_int m * u))"
    unfolding fl_def Let_def m_def u_def e_def il_def by (simp only: False if_False)
  then have fin: "fl p emin emax x = Finite (of_int m * u)" using ne by simp
  have "\<exists>M::int. (of_nat k :: rat) = of_int M * u"
  proof (cases "e - int p + 1 \<le> 0")
    case True
    define j where "j = nat (- (e - int p + 1))"
    have "e - int p + 1 = - int j" unfolding j_def using True by simp
    then have "u = inverse (2 powi (int j))"
      unfolding u_def by (simp only: power_int_minus)
    then have "u = inverse (2 ^ j)" by simp
    then have "(of_nat k :: rat) = of_int (int k * 2 ^ j) * u" by simp
    then show ?thesis by blast
  next
    case gt: False
    then have ep: "e = int p" using e by simp
    have "il = int p"
    proof (rule ccontr)
      assume "il \<noteq> int p"
      then have "emin = int p" using ep unfolding e_def by (simp add: max_def split: if_splits)
      then show False using emin p by simp
    qed
    then have "(2::rat) powi (int p) \<le> \<bar>x\<bar>"
      using ilog2_le [OF ax] unfolding il_def by simp
    then have "(2::rat) ^ p \<le> \<bar>x\<bar>" by simp
    then have "(2::rat) ^ p \<le> of_nat k" using x by linarith
    then have kk: "(of_nat k :: rat) = 2 ^ p" using k2 by linarith
    have "u = 2" unfolding u_def using ep by simp
    moreover have "(2::rat) ^ p = of_int (2 ^ (p - 1)) * 2"
      using p by (cases p) simp_all
    ultimately have "(of_nat k :: rat) = of_int (2 ^ (p - 1)) * u" using kk by simp
    then show ?thesis by blast
  qed
  then obtain M :: int where M: "(of_nat k :: rat) = of_int M * u" by blast
  have "x \<le> of_int M * u" using x M by linarith
  then have "x / u \<le> rat_of_int M" using u0 by (simp add: field_simps)
  then have le: "m \<le> M" unfolding m_def by (rule rne_le)
  have "- (of_int M * u) \<le> x" using x M by linarith
  then have "rat_of_int (- M) \<le> x / u" using u0 by (simp add: field_simps)
  then have ge: "- M \<le> m" unfolding m_def by (rule rne_ge)
  from le ge have "\<bar>rat_of_int m\<bar> \<le> rat_of_int M" by linarith
  then have "\<bar>rat_of_int m\<bar> * u \<le> rat_of_int M * u" using u0 by simp
  then have "\<bar>rat_of_int m * u\<bar> \<le> of_nat k" using M u0 by (simp add: abs_mult)
  with fin show ?thesis by blast
qed

lemma rne_of_int [simp]: "rne (rat_of_int z) = z"
  by (simp add: rne_def)

lemma ilog2_less_exp:
  assumes "0 < x" "x < 2 powi n"
  shows "ilog2 x < n"
proof (rule ccontr)
  assume "\<not> ilog2 x < n"
  then have "(2::rat) powi n \<le> 2 powi (ilog2 x)" by (intro power_int_increasing) simp_all
  with ilog2_le [OF assms(1)] assms(2) show False by linarith
qed

text \<open>A value with a \<open>p\<close>-bit significand and an exponent in range is rounded to itself.\<close>

lemma fl_exact:
  assumes x: "x = rat_of_int n * 2 powi j" and n: "\<bar>n\<bar> < 2 ^ p"
    and j: "emin - int p + 1 \<le> j" and big: "\<bar>x\<bar> < 2 powi (emax + 1)"
    and ee: "emin \<le> emax"
  shows "fl p emin emax x = Finite x"
proof (cases "x = 0")
  case True
  then show ?thesis by (simp add: fl_def)
next
  case False
  define il where "il = ilog2 \<bar>x\<bar>"
  define e where "e = max il emin"
  define u :: rat where "u = 2 powi (e - int p + 1)"
  define m where "m = rne (x / u)"
  have u0: "0 < u" unfolding u_def by simp
  have ax: "0 < \<bar>x\<bar>" using False by simp
  have "\<bar>x\<bar> = rat_of_int \<bar>n\<bar> * 2 powi j" unfolding x by (simp add: abs_mult)
  also have "\<dots> < 2 ^ p * 2 powi j"
  proof -
    have "rat_of_int \<bar>n\<bar> < rat_of_int (2 ^ p)" using n by (simp only: of_int_less_iff)
    then show ?thesis by simp
  qed
  also have "\<dots> = 2 powi (int p + j)" by (simp add: power_int_add)
  finally have "il < int p + j" unfolding il_def using ax by (intro ilog2_less_exp)
  then have ej: "e - int p + 1 \<le> j" unfolding e_def using j by simp
  define d where "d = nat (j - (e - int p + 1))"
  have "j = (e - int p + 1) + int d" unfolding d_def using ej by simp
  then have "(2::rat) powi j = u * 2 ^ d" unfolding u_def by (simp add: power_int_add)
  then have xu: "x / u = rat_of_int (n * 2 ^ d)" unfolding x using u0 by simp
  then have m: "rat_of_int m = x / u" unfolding m_def by (simp only: rne_of_int)
  have il2: "il < emax + 1" unfolding il_def using ax big by (rule ilog2_less_exp)
  have le: "\<not> emax < e" unfolding e_def using il2 ee by simp
  have fl: "fl p emin emax x =
      (if emax < e \<or> (e = emax \<and> \<bar>m\<bar> = 2 ^ p) then (if 0 < x then PosInf else NegInf)
       else Finite (of_int m * u))"
    unfolding fl_def Let_def m_def u_def e_def il_def by (simp only: False if_False)
  have mu: "rat_of_int m * u = x" using m u0 by simp
  have "\<bar>m\<bar> \<noteq> 2 ^ p" if "e = emax"
  proof
    assume a: "\<bar>m\<bar> = 2 ^ p"
    have "\<bar>x\<bar> = rat_of_int \<bar>m\<bar> * u" using mu u0 by (simp add: abs_mult flip: mu)
    also have "\<dots> = 2 ^ p * 2 powi (emax - int p + 1)" unfolding a u_def that by simp
    also have "\<dots> = 2 powi (int p) * 2 powi (emax - int p + 1)" by simp
    also have "\<dots> = 2 powi (int p + (emax - int p + 1))" by (rule power_int_add [symmetric]) simp
    also have "\<dots> = 2 powi (emax + 1)" by simp
    finally show False using big by simp
  qed
  with fl le mu show ?thesis by auto
qed

lemma fl64_bounded:
  "\<bar>x\<bar> \<le> of_nat k \<Longrightarrow> k \<le> 2 ^ 53 \<Longrightarrow> \<exists>y. fl64 x = Finite y \<and> \<bar>y\<bar> \<le> of_nat k"
  unfolding fl64_def by (rule fl_bounded) simp_all

lemma fl32_bounded:
  "\<bar>x\<bar> \<le> of_nat k \<Longrightarrow> k \<le> 2 ^ 24 \<Longrightarrow> \<exists>y. fl32 x = Finite y \<and> \<bar>y\<bar> \<le> of_nat k"
  unfolding fl32_def by (rule fl_bounded) simp_all

lemma clamp_number:
  "Math_max (Finite (- 1)) (Math_min (Finite 1) (Finite x)) = Finite (max (- 1) (min 1 x))"
  by (auto simp: max_def min_def)

lemma scaled_Finite:
  "scaled (Finite x) =
     (if max (- 1) (min 1 x) < 0 then fl64 (max (- 1) (min 1 x) * 32768)
      else fl64 (max (- 1) (min 1 x) * 32767))"
  unfolding scaled_def clamp_number by (simp only: Let_def lt.simps fmul.simps)

lemma scaled_range: "\<exists>v. scaled (Finite x) = Finite v \<and> - 32768 \<le> v \<and> v \<le> 32767"
proof -
  define s :: rat where "s = max (- 1) (min 1 x)"
  have s: "- 1 \<le> s" "s \<le> 1" unfolding s_def by auto
  show ?thesis
  proof (cases "s < 0")
    case True
    have "\<bar>s * 32768\<bar> \<le> of_nat 32768" using s by (simp add: abs_mult abs_le_iff)
    then obtain y where y: "fl64 (s * 32768) = Finite y" "\<bar>y\<bar> \<le> of_nat 32768"
      using fl64_bounded [of "s * 32768" 32768] by auto
    have "s * 32768 \<le> 0" using True by simp
    then have "y \<le> 0" using fl_nonpos [of "s * 32768" 53 "- 1022" 1023] y by (simp add: fl64_def)
    then show ?thesis using y True unfolding scaled_Finite s_def [symmetric] by auto
  next
    case False
    have "\<bar>s * 32767\<bar> \<le> of_nat 32767" using s by (simp add: abs_mult abs_le_iff)
    then obtain y where y: "fl64 (s * 32767) = Finite y" "\<bar>y\<bar> \<le> of_nat 32767"
      using fl64_bounded [of "s * 32767" 32767] by auto
    have "0 \<le> s * 32767" using False by simp
    then have "0 \<le> y" using fl_nonneg [of "s * 32767" 53 "- 1022" 1023] y by (simp add: fl64_def)
    then show ?thesis using y False unfolding scaled_Finite s_def [symmetric] by auto
  qed
qed

lemma trunc_range: "rat_of_int lo \<le> v \<Longrightarrow> v \<le> rat_of_int hi \<Longrightarrow> lo \<le> 0 \<Longrightarrow> 0 \<le> hi \<Longrightarrow> lo \<le> trunc v \<and> trunc v \<le> hi"
  unfolding trunc_def by (auto simp: le_floor_iff floor_le_iff ceiling_le_iff le_ceiling_iff)

lemma sint_ToInt16:
  assumes "- 32768 \<le> v" "v \<le> 32767"
  shows "sint (ToInt16 (Finite v)) = trunc v"
proof -
  have "- 32768 \<le> trunc v \<and> trunc v \<le> 32767"
    using trunc_range [of "- 32768" v 32767] assms by simp
  then show ?thesis
    by (simp add: sint_sbintrunc' signed_take_bit_int_eq_self)
qed

lemma fl64_0 [simp]: "fl64 0 = Finite 0"
  by (simp add: fl64_def fl_def)

lemma fl32_0 [simp]: "fl32 0 = Finite 0"
  by (simp add: fl32_def fl_def)

lemma fl64_32767: "fl64 32767 = Finite 32767"
  by code_simp

lemma fl64_m32768: "fl64 (- 32768) = Finite (- 32768)"
  by code_simp

lemma pcm_sample_values:
  "pcm_sample (Finite 0) = 0" "sint (pcm_sample (Finite 1)) = 32767" "sint (pcm_sample (Finite (- 1))) = - 32768"
  "pcm_sample NaN = 0" "sint (pcm_sample PosInf) = 32767" "sint (pcm_sample NegInf) = - 32768"
  by (simp_all add: pcm_sample_def scaled_def fl64_32767 fl64_m32768 trunc_def)

lemma floatTo16BitPCM_map: "floatTo16BitPCM input = map pcm_sample input"
  by (induction input) simp_all

lemma ilog2_gt:
  assumes "0 < x"
  shows "x < 2 powi (ilog2 x + 1)"
proof (cases "1 \<le> x")
  case True
  then have n: "0 < \<lfloor>x\<rfloor>" by linarith
  then have b: "1 \<le> bitlen \<lfloor>x\<rfloor>" by (simp add: bitlen_alt_def)
  from bitlen_bounds [OF n] have "\<lfloor>x\<rfloor> + 1 \<le> 2 ^ nat (bitlen \<lfloor>x\<rfloor>)" by simp
  then have "rat_of_int (\<lfloor>x\<rfloor> + 1) \<le> rat_of_int (2 ^ nat (bitlen \<lfloor>x\<rfloor>))"
    by (simp only: of_int_le_iff)
  moreover have "x < rat_of_int (\<lfloor>x\<rfloor> + 1)" by linarith
  ultimately have "x < 2 ^ nat (bitlen \<lfloor>x\<rfloor>)" by simp
  moreover have "ilog2 x + 1 = bitlen \<lfloor>x\<rfloor>" using True by (simp add: ilog2_def)
  ultimately show ?thesis using b by (simp add: power_int_def)
next
  case False
  define c where "c = \<lceil>1 / x\<rceil>"
  define j where "j = bitlen (c - 1)"
  have "1 < 1 / x" using False assms by simp
  then have c: "0 < c - 1" unfolding c_def by linarith
  then have j1: "1 \<le> j" unfolding j_def by (simp add: bitlen_alt_def)
  from bitlen_bounds [OF c] have "2 ^ nat (j - 1) \<le> c - 1" unfolding j_def by simp
  then have "rat_of_int (2 ^ nat (j - 1)) \<le> rat_of_int (c - 1)" by (simp only: of_int_le_iff)
  moreover have "rat_of_int (c - 1) < 1 / x" unfolding c_def by linarith
  ultimately have "2 ^ nat (j - 1) < 1 / x" by simp
  then have "x * 2 ^ nat (j - 1) < 1" using assms by (simp add: field_simps)
  then have "x < inverse (2 ^ nat (j - 1))" by (simp add: field_simps)
  moreover have "ilog2 x + 1 = - (j - 1)" using False by (simp add: ilog2_def c_def j_def)
  moreover have "(2::rat) powi (- (j - 1)) = inverse (2 ^ nat (j - 1))"
  proof -
    have "(2::rat) powi (j - 1) = 2 ^ nat (j - 1)" using j1 by (simp add: power_int_def)
    then show ?thesis by (simp only: power_int_minus)
  qed
  ultimately show ?thesis by simp
qed

lemma single_repr:
  assumes "single x"
  shows "\<exists>n j. x = rat_of_int n * 2 powi j \<and> \<bar>n\<bar> \<le> 2 ^ 24 \<and> - 149 \<le> j"
proof (cases "x = 0")
  case True
  then have "x = rat_of_int 0 * 2 powi 0" by simp
  moreover have "\<bar>0::int\<bar> \<le> 2 ^ 24" "(- 149::int) \<le> 0" by simp_all
  ultimately show ?thesis by blast
next
  case False
  define e where "e = max (ilog2 \<bar>x\<bar>) (- 126)"
  define u :: rat where "u = 2 powi (e - int 24 + 1)"
  define m where "m = rne (x / u)"
  have u0: "0 < u" unfolding u_def by simp
  have u23: "u = 2 powi (e - 23)" unfolding u_def by simp
  have ax: "0 < \<bar>x\<bar>" using False by simp
  have "fl32 x =
      (if 127 < e \<or> (e = 127 \<and> \<bar>m\<bar> = 2 ^ 24) then (if 0 < x then PosInf else NegInf)
       else Finite (of_int m * u))"
    unfolding fl32_def fl_def Let_def m_def u_def e_def by (simp only: False if_False)
  with assms have x: "x = of_int m * u" unfolding single_def by (auto split: if_splits)
  have "\<bar>x\<bar> < 2 powi (ilog2 \<bar>x\<bar> + 1)" using ax by (rule ilog2_gt)
  also have "\<dots> \<le> 2 powi (e + 1)" unfolding e_def by (intro power_int_increasing) simp_all
  also have "\<dots> = 2 powi 24 * u"
  proof -
    have "(2::rat) powi (24 + (e - 23)) = 2 powi 24 * 2 powi (e - 23)"
      by (rule power_int_add) simp
    then show ?thesis unfolding u23 by (simp add: add.commute)
  qed
  finally have "\<bar>x\<bar> / u < 2 ^ 24" using u0 by (simp add: field_simps)
  then have "\<bar>rat_of_int m\<bar> < 2 ^ 24" unfolding x using u0 by (simp add: abs_mult)
  then have "\<bar>rat_of_int m\<bar> < rat_of_int (2 ^ 24)" by simp
  then have "\<bar>m\<bar> < 2 ^ 24" by (simp only: of_int_less_iff flip: of_int_abs)
  moreover have "- 149 \<le> e - 23" unfolding e_def by simp
  ultimately have "x = rat_of_int m * 2 powi (e - 23) \<and> \<bar>m\<bar> \<le> 2 ^ 24 \<and> - 149 \<le> e - 23"
    using x unfolding u23 by simp
  then show ?thesis by blast
qed

lemma scaled_exact:
  assumes "single x"
  shows "scaled (Finite x) = Finite (clamp_scale x)"
proof -
  define s :: rat where "s = max (- 1) (min 1 x)"
  have s: "- 1 \<le> s" "s \<le> 1" unfolding s_def by auto
  have "\<exists>n j. s = rat_of_int n * 2 powi j \<and> \<bar>n\<bar> \<le> 2 ^ 24 \<and> - 149 \<le> j"
  proof -
    have "s = x \<or> s = 1 \<or> s = - 1" unfolding s_def by (simp add: max_def min_def)
    then consider "s = x" | "s = 1" | "s = - 1" by blast
    then show ?thesis
    proof cases
      case 1
      then show ?thesis using single_repr [OF assms] by simp
    next
      case 2
      then have "s = rat_of_int 1 * 2 powi 0 \<and> \<bar>1::int\<bar> \<le> 2 ^ 24 \<and> (- 149::int) \<le> 0" by simp
      then show ?thesis by blast
    next
      case 3
      then have "s = rat_of_int (- 1) * 2 powi 0 \<and> \<bar>- 1::int\<bar> \<le> 2 ^ 24 \<and> (- 149::int) \<le> 0" by simp
      then show ?thesis by blast
    qed
  qed
  then obtain n j where nj: "s = rat_of_int n * 2 powi j" "\<bar>n\<bar> \<le> 2 ^ 24" "- 149 \<le> j" by blast
  have ex: "fl64 (s * rat_of_int c) = Finite (s * rat_of_int c)" if c: "0 < c" "c \<le> 32768" for c
    unfolding fl64_def
  proof (rule fl_exact [where n = "n * c" and j = j])
    show "s * rat_of_int c = rat_of_int (n * c) * 2 powi j" unfolding nj(1) by simp
    have "\<bar>n * c\<bar> \<le> 2 ^ 24 * 32768" unfolding abs_mult using nj(2) c by (intro mult_mono) simp_all
    then show "\<bar>n * c\<bar> < 2 ^ 53" by simp
    show "- 1022 - int 53 + 1 \<le> j" using nj(3) by simp
    have "\<bar>s * rat_of_int c\<bar> \<le> 1 * 32768" unfolding abs_mult using s c by (intro mult_mono) simp_all
    also have "\<dots> < 2 powi (1023 + 1)" by simp
    finally show "\<bar>s * rat_of_int c\<bar> < 2 powi (1023 + 1)" .
    show "(- 1022::int) \<le> 1023" by simp
  qed
  show ?thesis
    unfolding scaled_Finite clamp_scale_def Let_def s_def [symmetric]
    using ex [of 32768] ex [of 32767] by simp
qed

subsection \<open>Facts about the resampler\<close>

lemma fl64_nonneg: "0 \<le> x \<Longrightarrow> fl64 x = PosInf \<or> (\<exists>y. fl64 x = Finite y \<and> 0 \<le> y)"
  unfolding fl64_def by (rule fl_nonneg)

lemma fl64_nonpos: "x \<le> 0 \<Longrightarrow> fl64 x = NegInf \<or> (\<exists>y. fl64 x = Finite y \<and> y \<le> 0)"
  unfolding fl64_def by (rule fl_nonpos)

lemma offset_ok_round:
  assumes "0 \<le> r"
  shows "offset_ok (Math_round (fmul (Finite (of_nat k)) (Finite r)))"
proof -
  have "0 \<le> of_nat k * r" using assms by simp
  from fl64_nonneg [OF this] show ?thesis
  proof
    assume "fl64 (of_nat k * r) = PosInf"
    then show ?thesis by simp
  next
    assume "\<exists>y. fl64 (of_nat k * r) = Finite y \<and> 0 \<le> y"
    then obtain y where y: "fl64 (of_nat k * r) = Finite y" "0 \<le> y" by blast
    then have "0 \<le> \<lfloor>y + 1 / 2\<rfloor>" by simp
    then show ?thesis using y by simp
  qed
qed




lemma loop_ratio_pos:
  assumes "ToIndex (Math_round (fdiv (Finite (of_nat N)) ratio)) = Some n" "0 < n"
  shows "\<exists>r. ratio = Finite r \<and> 0 < r"
proof (cases ratio)
  case (Finite r)
  have "0 < r"
  proof (rule ccontr)
    assume "\<not> 0 < r"
    then consider "r = 0" | "r < 0" by linarith
    then show False
    proof cases
      case 1
      then show False using assms Finite by (auto split: if_splits)
    next
      case 2
      then have "of_nat N / r \<le> 0" by (simp add: divide_nonneg_neg)
      from fl64_nonpos [OF this] show False
      proof
        assume "fl64 (rat_of_nat N / r) = NegInf"
        then show False using assms Finite 2 by simp
      next
        assume "\<exists>y. fl64 (rat_of_nat N / r) = Finite y \<and> y \<le> 0"
        then obtain y where y: "fl64 (rat_of_nat N / r) = Finite y" "y \<le> 0" by blast
        then have "\<lfloor>y + 1 / 2\<rfloor> \<le> 0" by (simp add: floor_le_iff)
        then have "trunc (of_int \<lfloor>y + 1 / 2\<rfloor>) \<le> 0" by (simp add: trunc_def)
        then show False using assms Finite 2 y by (auto split: if_splits)
      qed
    qed
  qed
  with Finite show ?thesis by simp
qed (use assms in \<open>auto simp: trunc_def\<close>)


lemma unit_sample_iff: "unit_sample x \<longleftrightarrow> (\<exists>v. x = Finite v \<and> \<bar>v\<bar> \<le> 1)"
  by (cases x) (auto simp: abs_le_iff)

lemma sum_block_unit:
  assumes "\<forall>x\<in>set buffer. unit_sample x" "length buffer \<le> 2 ^ 53" "0 \<le> i"
    "\<bar>a\<bar> \<le> of_nat count" "int count \<le> i" "count \<le> length buffer"
  shows "\<exists>a' c'. sum_block buffer nxt i (Finite a) count = (Finite a', c') \<and>
           \<bar>a'\<bar> \<le> of_nat c' \<and> c' \<le> length buffer"
  using assms
proof (induction buffer nxt i "Finite a" count arbitrary: a rule: sum_block.induct)
  case (1 buffer nxt i count)
  show ?case
  proof (cases "lt (Finite (of_int i)) nxt \<and> i < int (length buffer)")
    case False
    then show ?thesis using "1.prems" by (subst sum_block.simps) auto
  next
    case True
    then have il: "i < int (length buffer)" by simp
    then have "nat i < length buffer" using "1.prems"(3) by linarith
    then have "buffer ! nat i \<in> set buffer" by simp
    then have "unit_sample (buffer ! nat i)" using "1.prems"(1) by blast
    then obtain v where v: "buffer ! nat i = Finite v" "\<bar>v\<bar> \<le> 1"
      unfolding unit_sample_iff by blast
    have r: "read_at buffer i = Finite v" using il "1.prems"(3) v by (simp add: read_at_def)
    have c1: "count + 1 \<le> length buffer" using il "1.prems"(5) by linarith
    have "\<bar>a + v\<bar> \<le> of_nat (count + 1)" using "1.prems"(4) v(2) by simp
    moreover have "count + 1 \<le> 2 ^ 53" using c1 "1.prems"(2) by linarith
    ultimately obtain a2 where a2: "fl64 (a + v) = Finite a2" "\<bar>a2\<bar> \<le> of_nat (count + 1)"
      using fl64_bounded by blast
    have f: "fadd (Finite a) (read_at buffer i) = Finite a2" unfolding r using a2 by simp
    have "\<exists>a' c'. sum_block buffer nxt (i + 1) (Finite a2) (count + 1) = (Finite a', c') \<and>
           \<bar>a'\<bar> \<le> of_nat c' \<and> c' \<le> length buffer"
      using "1.hyps" [OF True f "1.prems"(1,2)] a2(2) "1.prems"(3,5) c1 by simp
    moreover have "sum_block buffer nxt i (Finite a) count = sum_block buffer nxt (i + 1) (Finite a2) (count + 1)"
      using True f by (subst sum_block.simps) simp
    ultimately show ?thesis by simp
  qed
qed

lemma block_sum_unit:
  assumes "\<forall>x\<in>set buffer. unit_sample x" "length buffer \<le> 2 ^ 53" "offset_ok off"
  shows "\<exists>a c. block_sum buffer off nxt = Inr (Finite a, c) \<and> \<bar>a\<bar> \<le> of_nat c \<and> c \<le> length buffer"
proof (cases off)
  case (Finite r)
  then have r: "r = of_int \<lfloor>r\<rfloor>" "0 \<le> r" using assms(3) by simp_all
  then have "0 \<le> \<lfloor>r\<rfloor>" by simp
  then have "\<exists>a' c'. sum_block buffer nxt \<lfloor>r\<rfloor> (Finite 0) 0 = (Finite a', c') \<and>
           \<bar>a'\<bar> \<le> of_nat c' \<and> c' \<le> length buffer"
    using assms(1,2) by (intro sum_block_unit) simp_all
  moreover have "block_sum buffer off nxt = Inr (sum_block buffer nxt \<lfloor>r\<rfloor> (Finite 0) 0)"
    using Finite r by simp
  ultimately show ?thesis by auto
qed (use assms in auto)

lemma stored_unit:
  assumes "\<bar>a\<bar> \<le> of_nat c" "c \<le> 2 ^ 53"
  shows "unit_sample (fround (fdiv (Finite a) (Finite (of_nat (max 1 c)))))"
proof -
  define m :: rat where "m = of_nat (max 1 c)"
  have m: "1 \<le> m" "of_nat c \<le> m" unfolding m_def by simp_all
  then have "\<bar>a\<bar> \<le> m" using assms(1) by linarith
  then have "\<bar>a / m\<bar> \<le> 1" using m by (simp add: field_simps)
  then have "\<bar>a / m\<bar> \<le> of_nat 1" by simp
  then obtain y where y: "fl64 (a / m) = Finite y" "\<bar>y\<bar> \<le> of_nat 1"
    using fl64_bounded [of "a / m" 1] by auto
  then obtain z where z: "fl32 y = Finite z" "\<bar>z\<bar> \<le> of_nat 1"
    using fl32_bounded [of y 1] by auto
  have "fdiv (Finite a) (Finite m) = Finite y" using y m by simp
  then show ?thesis unfolding m_def [symmetric] using z by (simp add: unit_sample_iff)
qed

lemma downsample_loop_unit:
  assumes "\<forall>x\<in>set buffer. unit_sample x" "length buffer \<le> 2 ^ 53" "0 \<le> r" "offset_ok off"
    "\<forall>x\<in>set result. unit_sample x"
  shows "\<exists>out. downsample_loop buffer (Finite r) k off result = Inr out \<and>
           (\<forall>x\<in>set out. unit_sample x)"
  using assms
proof (induction buffer "Finite r" k off result rule: downsample_loop.induct)
  case (1 buffer k off result)
  show ?case
  proof (cases "k < length result")
    case False
    then show ?thesis using "1.prems"(5) by (subst downsample_loop.simps) simp
  next
    case True
    define nxt where "nxt = Math_round (fmul (Finite (of_nat (k + 1))) (Finite r))"
    have nok: "offset_ok nxt" unfolding nxt_def using "1.prems"(3) by (rule offset_ok_round)
    from block_sum_unit [OF "1.prems"(1,2,4)] obtain a c
      where b: "block_sum buffer off nxt = Inr (Finite a, c)" "\<bar>a\<bar> \<le> of_nat c" "c \<le> length buffer"
      by blast
    define result' where "result' = result[k := fround (fdiv (Finite a) (Finite (of_nat (max 1 c))))]"
    have "c \<le> 2 ^ 53" using b(3) "1.prems"(2) by linarith
    then have "unit_sample (fround (fdiv (Finite a) (Finite (of_nat (max 1 c)))))"
      using b(2) by (intro stored_unit)
    then have ru: "\<forall>x\<in>set result'. unit_sample x"
      unfolding result'_def using "1.prems"(5) set_update_subset_insert [of result k] by blast
    have "\<exists>out. downsample_loop buffer (Finite r) (k + 1) nxt result' = Inr out \<and>
        (\<forall>x\<in>set out. unit_sample x)"
      unfolding result'_def
      by (rule "1.hyps" [OF True nxt_def b(1) refl "1.prems"(1,2,3) nok ru [unfolded result'_def]])
    moreover have "downsample_loop buffer (Finite r) k off result = downsample_loop buffer (Finite r) (k + 1) nxt result'"
      using True b unfolding nxt_def result'_def by (subst downsample_loop.simps) (simp add: Let_def)
    ultimately show ?thesis by simp
  qed
qed

text \<open>
  A block without samples leaves the accumulator at 0 and the count at 0, and the sample
  stored for it is \<open>0 / 1\<close>.
\<close>

lemma sum_block_count:
  "sum_block buffer nxt i accum count = (a', c') \<Longrightarrow> count \<le> c' \<and> (c' = count \<longrightarrow> a' = accum)"
proof (induction buffer nxt i accum count rule: sum_block.induct)
  case (1 buffer nxt i accum count)
  show ?case
  proof (cases "lt (Finite (of_int i)) nxt \<and> i < int (length buffer)")
    case True
    have "sum_block buffer nxt (i + 1) (fadd accum (read_at buffer i)) (count + 1) = (a', c')"
      using "1.prems" True by (subst (asm) sum_block.simps) simp
    from "1.IH" [OF True this] show ?thesis by simp
  next
    case False
    have "(accum, count) = (a', c')"
      using "1.prems" by (subst (asm) sum_block.simps) (simp only: False if_False)
    then show ?thesis by simp
  qed
qed

lemma empty_block_stored: "fround (fdiv (Finite 0) (Finite (of_nat (max 1 0)))) = Finite 0"
  by simp

subsection \<open>Facts about the session\<close>

lemma trimmed_trim: "trimmed (trim x)"
  using trim_hd [of x] trim_last [of x] by (auto simp: trimmed_def)

lemma effects_emit [simp]: "effects (emit e s) = effects s @ [e]"
  by (simp add: emit_def)

lemma finals_trimmed_append [simp]:
  "finals_trimmed (xs @ ys) \<longleftrightarrow> finals_trimmed xs \<and> finals_trimmed ys"
  by (simp add: finals_trimmed_def)

lemma finals_trimmed_single:
  "finals_trimmed [e] \<longleftrightarrow> (case final_text e of None \<Rightarrow> True | Some t \<Rightarrow> trimmed t)"
  by (simp add: finals_trimmed_def)

lemma ft_clearVadInterval [simp]: "effects (clearVadInterval s) = effects s"
  by (simp add: clearVadInterval_def)

lemma ft_set_stop [simp]: "effects (set_stop k f s) = effects s"
  by (simp add: set_stop_def)

lemma ft_cleanupAudio_rest:
  "finals_trimmed (effects s) \<Longrightarrow> finals_trimmed (effects (cleanupAudio_rest s))"
  by (simp add: cleanupAudio_rest_def finals_trimmed_single)

lemma ft_cleanupAudio:
  "finals_trimmed (effects s) \<Longrightarrow> finals_trimmed (effects (snd (cleanupAudio cont s)))"
  by (simp add: cleanupAudio_def Let_def finals_trimmed_single ft_cleanupAudio_rest)

lemma ft_stop_after_cleanup:
  "finals_trimmed (effects s) \<Longrightarrow> finals_trimmed (effects (stop_after_cleanup k s))"
  by (simp add: stop_after_cleanup_def Let_def finals_trimmed_single)

lemma stopRecording_fst:
  "fst (stopRecording reason s) = (if stoppingRef s then Some (trim (transcriptRef s)) else None)"
  by (simp add: stopRecording_def Let_def split: prod.splits)

lemma stopRecording_snd:
  "snd (stopRecording reason s) =
     (if stoppingRef s then s
      else if fst (cleanupAudio (Some (length (stops s))) (stop_begin reason s))
      then snd (cleanupAudio (Some (length (stops s))) (stop_begin reason s))
      else stop_after_cleanup (length (stops s))
             (snd (cleanupAudio (Some (length (stops s))) (stop_begin reason s))))"
  by (simp add: stopRecording_def Let_def split: prod.splits)

lemma ft_stop_begin [simp]: "effects (stop_begin reason s) = effects s"
  by (simp add: stop_begin_def Let_def)

lemma ft_stopRecording:
  "finals_trimmed (effects s) \<Longrightarrow> finals_trimmed (effects (snd (stopRecording reason s)))"
  by (simp add: stopRecording_snd ft_cleanupAudio ft_stop_after_cleanup)

lemma ft_stop_finish:
  "finals_trimmed (effects s) \<Longrightarrow> trimmed text \<Longrightarrow> finals_trimmed (effects (stop_finish k text s))"
  by (simp add: stop_finish_def Let_def finals_trimmed_single)

lemma ft_resolve:
  "finals_trimmed (effects s) \<Longrightarrow> trimmed text \<Longrightarrow> finals_trimmed (effects (resolve k text s))"
  by (simp add: resolve_def ft_stop_finish)

lemma ft_apply_updates [simp]: "effects (foldl apply_update s us) = effects s"
proof (induction us arbitrary: s)
  case Nil
  show ?case by simp
next
  case (Cons u us)
  have "effects (apply_update s u) = effects s" by (cases u) (simp_all add: Let_def)
  then show ?case using Cons [of "apply_update s u"] by simp
qed

lemma ft_render [simp]: "effects (render s) = effects s"
  by (simp add: render_def)

lemma ft_step: "finals_trimmed (effects s) \<Longrightarrow> finals_trimmed (effects (step e s))"
proof (cases e)
  case (StartRecording now)
  then show "finals_trimmed (effects s) \<Longrightarrow> ?thesis" by (simp add: startRecording_def)
next
  case MediaGranted
  then show "finals_trimmed (effects s) \<Longrightarrow> ?thesis" by (simp add: start_granted_def)
next
  case (MediaFailed stage message)
  then show "finals_trimmed (effects s) \<Longrightarrow> ?thesis"
    by (simp add: start_failed_def Let_def ft_cleanupAudio)
next
  case (StopRecording reason)
  assume a: "finals_trimmed (effects s)"
  show ?thesis
  proof (cases "stoppingRef s")
    case True
    then show ?thesis using a StopRecording
      by (simp add: stopRecording_def finals_trimmed_single trimmed_trim)
  next
    case False
    then have "fst (stopRecording reason s) = None"
      by (simp add: stopRecording_fst)
    then have "step e s = snd (stopRecording reason s)"
      using StopRecording by (cases "stopRecording reason s") auto
    then show ?thesis using a by (simp add: ft_stopRecording)
  qed
next
  case (AudioClosed j)
  then show "finals_trimmed (effects s) \<Longrightarrow> ?thesis"
    by (simp add: audio_closed_def Let_def ft_cleanupAudio_rest ft_stop_after_cleanup split: option.splits)
next
  case (Timeout k)
  then show "finals_trimmed (effects s) \<Longrightarrow> ?thesis"
    by (simp add: timeout_def ft_resolve trimmed_trim)
next
  case (VadTick now)
  then show "finals_trimmed (effects s) \<Longrightarrow> ?thesis"
    by (simp add: vad_tick_def triggerStop_def ft_stopRecording)
next
  case (AudioProcess now rms input sampleRate)
  then show "finals_trimmed (effects s) \<Longrightarrow> ?thesis"
    by (simp add: onaudioprocess_def Let_def finals_trimmed_single split: sum.splits)
next
  case (WsOpen i)
  then show "finals_trimmed (effects s) \<Longrightarrow> ?thesis"
    by (simp add: onopen_def Let_def startVadInterval_def)
next
  case (WsMessage i m)
  assume a: "finals_trimmed (effects s)"
  have f: "finals_trimmed (effects (finalize s))"
    using a by (simp add: finalize_def Let_def ft_resolve trimmed_trim finals_trimmed_single split: option.splits)
  have "finals_trimmed (effects (handle_message m s))"
    using a f by (cases m) (simp_all add: updateTranscript_def Let_def finals_trimmed_single)
  then show ?thesis using a WsMessage by (simp add: onmessage_def)
next
  case (WsError i)
  then show "finals_trimmed (effects s) \<Longrightarrow> ?thesis" by (simp add: onerror_def)
next
  case (WsClose i)
  then show "finals_trimmed (effects s) \<Longrightarrow> ?thesis"
    by (simp add: onclose_def Let_def ft_cleanupAudio)
next
  case (SetOptions en ms t)
  then show "finals_trimmed (effects s) \<Longrightarrow> ?thesis" by (simp add: set_options_def)
next
  case Render
  then show "finals_trimmed (effects s) \<Longrightarrow> ?thesis" by simp
qed

lemma ft_run: "finals_trimmed (effects s) \<Longrightarrow> finals_trimmed (effects (run s es))"
  by (induction es arbitrary: s) (simp_all add: ft_step)


lemma hv_clearVadInterval [simp]: "hasVoiceRef (clearVadInterval s) = hasVoiceRef s"
  by (simp add: clearVadInterval_def)

lemma hv_emit [simp]: "hasVoiceRef (emit e s) = hasVoiceRef s"
  by (simp add: emit_def)

lemma hv_set_stop [simp]: "hasVoiceRef (set_stop k f s) = hasVoiceRef s"
  by (simp add: set_stop_def)

lemma hv_cleanupAudio_rest [simp]: "hasVoiceRef (cleanupAudio_rest s) = hasVoiceRef s"
  by (simp add: cleanupAudio_rest_def)

lemma hv_cleanupAudio [simp]: "hasVoiceRef (snd (cleanupAudio cont s)) = hasVoiceRef s"
  by (simp add: cleanupAudio_def Let_def)

lemma hv_stop_after_cleanup [simp]: "hasVoiceRef (stop_after_cleanup k s) = hasVoiceRef s"
  by (simp add: stop_after_cleanup_def Let_def)

lemma hv_stop_begin [simp]: "hasVoiceRef (stop_begin reason s) = hasVoiceRef s"
  by (simp add: stop_begin_def Let_def)

lemma hv_stopRecording [simp]: "hasVoiceRef (snd (stopRecording reason s)) = hasVoiceRef s"
  by (simp add: stopRecording_snd)

lemma hv_resolve [simp]: "hasVoiceRef (resolve k text s) = hasVoiceRef s"
  by (simp add: resolve_def stop_finish_def Let_def)

lemma hv_handle_message [simp]: "hasVoiceRef (handle_message m s) = hasVoiceRef s"
  by (cases m) (simp_all add: updateTranscript_def finalize_def Let_def split: option.splits)

lemma hv_apply_updates [simp]: "hasVoiceRef (foldl apply_update s us) = hasVoiceRef s"
proof (induction us arbitrary: s)
  case Nil
  show ?case by simp
next
  case (Cons u us)
  have "hasVoiceRef (apply_update s u) = hasVoiceRef s" by (cases u) (simp_all add: Let_def)
  then show ?case using Cons [of "apply_update s u"] by simp
qed

lemma hv_render [simp]: "hasVoiceRef (render s) = hasVoiceRef s"
  by (simp add: render_def)

lemma hv_step:
  "hasVoiceRef (step e s) =
     (if voiced_frame s e then True else if begins_session s e then False else hasVoiceRef s)"
proof (cases e)
  case (StopRecording reason)
  then show ?thesis by (cases "stopRecording reason s") (use hv_stopRecording [of reason s] in \<open>auto split: option.splits\<close>)
next
  case (AudioProcess now rms input sampleRate)
  then show ?thesis by (simp add: onaudioprocess_def Let_def split: sum.splits)
qed (simp_all add: startRecording_def start_granted_def start_failed_def audio_closed_def timeout_def
       vad_tick_def triggerStop_def onopen_def startVadInterval_def onmessage_def onerror_def
       onclose_def set_options_def Let_def split: option.splits)

lemma run_append: "run s (es1 @ es2) = run (run s es1) es2"
  by (induction es1 arbitrary: s) simp_all

lemma same_session_append:
  "same_session s (es1 @ es2) \<longleftrightarrow> same_session s es1 \<and> same_session (run s es1) es2"
  by (induction es1 arbitrary: s) simp_all

lemma hasVoice_origin:
  assumes "hasVoiceRef (run s es)"
  shows "hasVoiceRef s \<and> same_session s es \<or>
         (\<exists>es1 e es2. es = es1 @ e # es2 \<and> voiced_frame (run s es1) e \<and>
            same_session (step e (run s es1)) es2)"
  using assms
proof (induction es rule: rev_induct)
  case Nil
  then show ?case by simp
next
  case (snoc e es)
  let ?s = "run s es"
  have r: "run s (es @ [e]) = step e ?s" by (simp add: run_append)
  show ?case
  proof (cases "voiced_frame ?s e")
    case True
    then have "es @ [e] = es @ e # [] \<and> voiced_frame (run s es) e \<and> same_session (step e (run s es)) []"
      by simp
    then show ?thesis by blast
  next
    case False
    with snoc.prems r have nb: "\<not> begins_session ?s e" and hv: "hasVoiceRef ?s"
      by (auto simp: hv_step split: if_splits)
    from snoc.IH [OF hv] show ?thesis
    proof
      assume "hasVoiceRef s \<and> same_session s es"
      then have "hasVoiceRef s \<and> same_session s (es @ [e])" using nb by (simp add: same_session_append)
      then show ?thesis by blast
    next
      assume "\<exists>es1 f es2. es = es1 @ f # es2 \<and> voiced_frame (run s es1) f \<and>
            same_session (step f (run s es1)) es2"
      then obtain es1 f es2 where sp: "es = es1 @ f # es2" "voiced_frame (run s es1) f"
        "same_session (step f (run s es1)) es2" by blast
      have "run (step f (run s es1)) es2 = ?s" unfolding sp(1) by (simp add: run_append)
      then have "same_session (step f (run s es1)) (es2 @ [e])"
        using sp(3) nb by (simp add: same_session_append)
      moreover have "es @ [e] = es1 @ f # (es2 @ [e])" using sp(1) by simp
      ultimately show ?thesis using sp(2) by blast
    qed
  qed
qed

lemma tr_clearVadInterval [simp]: "transcriptRef (clearVadInterval s) = transcriptRef s"
  by (simp add: clearVadInterval_def)

lemma tr_emit [simp]: "transcriptRef (emit e s) = transcriptRef s"
  by (simp add: emit_def)

lemma tr_set_stop [simp]: "transcriptRef (set_stop k f s) = transcriptRef s"
  by (simp add: set_stop_def)

lemma tr_cleanupAudio_rest [simp]: "transcriptRef (cleanupAudio_rest s) = transcriptRef s"
  by (simp add: cleanupAudio_rest_def)

lemma tr_cleanupAudio [simp]: "transcriptRef (snd (cleanupAudio cont s)) = transcriptRef s"
  by (simp add: cleanupAudio_def Let_def)

lemma tr_stop_after_cleanup [simp]: "transcriptRef (stop_after_cleanup k s) = transcriptRef s"
  by (simp add: stop_after_cleanup_def Let_def)

lemma tr_stop_begin [simp]: "transcriptRef (stop_begin reason s) = transcriptRef s"
  by (simp add: stop_begin_def Let_def)

lemma tr_stopRecording [simp]: "transcriptRef (snd (stopRecording reason s)) = transcriptRef s"
  by (simp add: stopRecording_snd)

lemma tr_resolve [simp]: "transcriptRef (resolve k text s) = transcriptRef s"
  by (simp add: resolve_def stop_finish_def Let_def)

text \<open>
  No message writes \<^verbatim>\<open>transcriptRef\<close>: a text fragment only queues its updater.
\<close>

lemma tr_handle_message [simp]: "transcriptRef (handle_message m s) = transcriptRef s"
  by (cases m) (simp_all add: updateTranscript_def finalize_def Let_def split: option.splits)

lemma tr_step: "\<not> changes_transcript e \<Longrightarrow> transcriptRef (step e s) = transcriptRef s"
proof (cases e)
  case (StopRecording reason)
  then show ?thesis by (cases "stopRecording reason s") (use tr_stopRecording [of reason s] in \<open>auto split: option.splits\<close>)
next
  case (AudioProcess now rms input sampleRate)
  then show ?thesis by (simp add: onaudioprocess_def Let_def split: sum.splits)
next
  case (WsMessage i m)
  then show ?thesis by (simp add: onmessage_def)
qed (simp_all add: start_granted_def start_failed_def audio_closed_def timeout_def
       vad_tick_def triggerStop_def onopen_def startVadInterval_def onerror_def
       onclose_def set_options_def Let_def split: option.splits)

lemma tr_run: "list_all (\<lambda>e. \<not> changes_transcript e) es \<Longrightarrow> transcriptRef (run s es) = transcriptRef s"
  by (induction es arbitrary: s) (simp_all add: tr_step)

lemma trimmed_trim_id: "trimmed t \<Longrightarrow> trim t = t"
  unfolding trimmed_def using trim_id [of t] by (cases "t = []") auto

lemma finals_trimmed_run:
  "finals_trimmed (effects (run (initial vadEnabled vadSilenceMs vadThreshold) es))"
  by (rule ft_run) (simp add: initial_def finals_trimmed_def)

lemma example_effects:
  "effects (run example_initial example_run) =
     [OnTranscript [], ProcessorDisconnected, AudioContextClose, TracksStopped,
      SentEndOfStream 0, ReturnedEarly (js ''hello''), OnTranscript (js ''hello''),
      OnFinalTranscript (js ''hello world''), SocketClose 0, Returned 0 (js ''hello world'')]"
  by code_simp

lemma tt_clearVadInterval [simp]: "transcript (clearVadInterval s) = transcript s"
  by (simp add: clearVadInterval_def)

lemma tt_emit [simp]: "transcript (emit e s) = transcript s"
  by (simp add: emit_def)

lemma tt_set_stop [simp]: "transcript (set_stop k f s) = transcript s"
  by (simp add: set_stop_def)

lemma tt_cleanupAudio_rest [simp]: "transcript (cleanupAudio_rest s) = transcript s"
  by (simp add: cleanupAudio_rest_def)

lemma tt_cleanupAudio [simp]: "transcript (snd (cleanupAudio cont s)) = transcript s"
  by (simp add: cleanupAudio_def Let_def)

lemma tt_stop_after_cleanup [simp]: "transcript (stop_after_cleanup k s) = transcript s"
  by (simp add: stop_after_cleanup_def Let_def)

lemma tt_stop_begin [simp]: "transcript (stop_begin reason s) = transcript s"
  by (simp add: stop_begin_def Let_def)

lemma tt_stopRecording [simp]: "transcript (snd (stopRecording reason s)) = transcript s"
  by (simp add: stopRecording_snd)

lemma tt_resolve [simp]: "transcript (resolve k text s) = transcript s"
  by (simp add: resolve_def stop_finish_def Let_def)

lemma tu_clearVadInterval [simp]: "transcript_updates (clearVadInterval s) = transcript_updates s"
  by (simp add: clearVadInterval_def)

lemma tu_emit [simp]: "transcript_updates (emit e s) = transcript_updates s"
  by (simp add: emit_def)

lemma tu_set_stop [simp]: "transcript_updates (set_stop k f s) = transcript_updates s"
  by (simp add: set_stop_def)

lemma tu_cleanupAudio_rest [simp]: "transcript_updates (cleanupAudio_rest s) = transcript_updates s"
  by (simp add: cleanupAudio_rest_def)

lemma tu_cleanupAudio [simp]: "transcript_updates (snd (cleanupAudio cont s)) = transcript_updates s"
  by (simp add: cleanupAudio_def Let_def)

lemma tu_stop_after_cleanup [simp]: "transcript_updates (stop_after_cleanup k s) = transcript_updates s"
  by (simp add: stop_after_cleanup_def Let_def)

lemma tu_stop_begin [simp]: "transcript_updates (stop_begin reason s) = transcript_updates s"
  by (simp add: stop_begin_def Let_def)

lemma tu_stopRecording [simp]: "transcript_updates (snd (stopRecording reason s)) = transcript_updates s"
  by (simp add: stopRecording_snd)

lemma tu_resolve [simp]: "transcript_updates (resolve k text s) = transcript_updates s"
  by (simp add: resolve_def stop_finish_def Let_def)

lemma tt_step: "e \<noteq> Render \<Longrightarrow> transcript (step e s) = transcript s"
proof (cases e)
  case (StopRecording reason)
  then show ?thesis by (cases "stopRecording reason s") (use tt_stopRecording [of reason s] in \<open>auto split: option.splits\<close>)
next
  case (AudioProcess now rms input sampleRate)
  then show ?thesis by (simp add: onaudioprocess_def Let_def split: sum.splits)
next
  case (WsMessage i m)
  have "transcript (handle_message m s) = transcript s"
    by (cases m) (simp_all add: updateTranscript_def finalize_def Let_def split: option.splits)
  then show ?thesis using WsMessage by (simp add: onmessage_def)
qed (simp_all add: startRecording_def start_granted_def start_failed_def audio_closed_def timeout_def
       vad_tick_def triggerStop_def onopen_def startVadInterval_def onerror_def
       onclose_def set_options_def Let_def split: option.splits)

text \<open>
  The queue of updates grows only by the empty value, queued by
  \<^verbatim>\<open>startRecording\<close>, and by updaters.
\<close>

lemma tu_step:
  "set (transcript_updates (step e s)) \<subseteq> set (transcript_updates s) \<union> {Value []} \<union> range Updater"
proof (cases e)
  case (StopRecording reason)
  then show ?thesis by (cases "stopRecording reason s") (use tu_stopRecording [of reason s] in \<open>auto split: option.splits\<close>)
next
  case (AudioProcess now rms input sampleRate)
  then show ?thesis by (auto simp: onaudioprocess_def Let_def split: sum.splits)
next
  case (WsMessage i m)
  have "set (transcript_updates (handle_message m s))
      \<subseteq> set (transcript_updates s) \<union> {Value []} \<union> range Updater"
    by (cases m) (auto simp: updateTranscript_def finalize_def Let_def split: option.splits)
  then show ?thesis using WsMessage by (auto simp: onmessage_def)
next
  case Render
  then show ?thesis by (simp add: render_def)
qed (auto simp: startRecording_def start_granted_def start_failed_def audio_closed_def timeout_def
       vad_tick_def triggerStop_def onopen_def startVadInterval_def onerror_def
       onclose_def set_options_def Let_def split: option.splits)

lemma merge_trimmed: "trimmed prev \<Longrightarrow> trimmed (mergeTranscript prev nextText)"
  by (simp add: mergeTranscript_def Let_def trimmed_trim)

lemma apply_updates_trimmed:
  assumes "trimmed (transcript s)" "trimmed (transcriptRef s)"
    "\<And>v. Value v \<in> set us \<Longrightarrow> trimmed v"
  shows "trimmed (transcript (foldl apply_update s us)) \<and>
         trimmed (transcriptRef (foldl apply_update s us))"
  using assms
proof (induction us arbitrary: s)
  case Nil
  then show ?case by simp
next
  case (Cons u us)
  have "trimmed (transcript (apply_update s u)) \<and> trimmed (transcriptRef (apply_update s u))"
    using Cons.prems by (cases u) (simp_all add: Let_def merge_trimmed)
  then show ?case using Cons.IH [of "apply_update s u"] Cons.prems(3) by simp
qed

lemma transcript_step:
  assumes "trimmed (transcript s)" "trimmed (transcriptRef s)"
    "\<And>v. Value v \<in> set (transcript_updates s) \<Longrightarrow> trimmed v"
  shows "trimmed (transcript (step e s)) \<and> trimmed (transcriptRef (step e s)) \<and>
         (\<forall>v. Value v \<in> set (transcript_updates (step e s)) \<longrightarrow> trimmed v)"
proof (intro conjI allI impI)
  show "trimmed (transcript (step e s))"
  proof (cases "e = Render")
    case True
    then show ?thesis using apply_updates_trimmed [OF assms] by (simp add: render_def)
  next
    case False
    then show ?thesis using assms(1) by (simp add: tt_step)
  qed
  show "trimmed (transcriptRef (step e s))"
  proof (cases "changes_transcript e")
    case False
    then show ?thesis using assms(2) by (simp add: tr_step del: step.simps)
  next
    case True
    then consider (start) now where "e = StartRecording now" | (render) "e = Render"
      by (cases e rule: changes_transcript.cases) auto
    then show ?thesis
    proof cases
      case start
      then show ?thesis using assms(2) by (simp add: startRecording_def trimmed_def)
    next
      case render
      then show ?thesis using apply_updates_trimmed [OF assms] by (simp add: render_def)
    qed
  qed
  fix v
  assume "Value v \<in> set (transcript_updates (step e s))"
  then have "Value v \<in> set (transcript_updates s) \<or> v = []"
    using tu_step [of e s] by auto
  then show "trimmed v" using assms(3) by (auto simp: trimmed_def)
qed

text \<open>
  The transcript the session holds is always trimmed, in the state and in the ref: the
  merger only ever gets a trimmed previous transcript.
\<close>

lemma transcript_trimmed:
  "trimmed (transcript (run (initial vadEnabled vadSilenceMs vadThreshold) es)) \<and>
   trimmed (transcriptRef (run (initial vadEnabled vadSilenceMs vadThreshold) es))"
proof -
  have "trimmed (transcript (run s es)) \<and> trimmed (transcriptRef (run s es))"
    if "trimmed (transcript s)" "trimmed (transcriptRef s)"
      "\<forall>v. Value v \<in> set (transcript_updates s) \<longrightarrow> trimmed v" for s
    using that
  proof (induction es arbitrary: s)
    case Nil
    then show ?case by simp
  next
    case (Cons e es)
    have "trimmed (transcript (step e s)) \<and> trimmed (transcriptRef (step e s)) \<and>
         (\<forall>v. Value v \<in> set (transcript_updates (step e s)) \<longrightarrow> trimmed v)"
      using Cons.prems by (intro transcript_step) auto
    then show ?case using Cons.IH [of "step e s"] by simp
  qed
  then show ?thesis by (simp add: initial_def trimmed_def)
qed

subsection \<open>Properties of the encoder\<close>

text \<open>
  Claim C6. The encoder maps each sample by clamping to \<open>[-1, 1]\<close> and scaling,
  negative values by 32768 and the others by 32767. The output has one element for each
  input sample. For every finite sample the scaled number \<open>v\<close> lies in
  \<open>[-32768, 32767]\<close>, so the 16-bit store truncates it and never wraps; for a
  single-precision sample (every element of a \<^verbatim>\<open>Float32Array\<close>) the
  double-precision product is exact, and the element is the truncated exact product.
  Not-a-number is stored as 0 and the infinities as the two ends of the range. The
  samples 0, 1 and -1 give 0, 32767 and -32768.
\<close>

theorem floatTo16BitPCM_encoding:
  "length (floatTo16BitPCM input) = length input \<and>
   (\<forall>i. i < length input \<longrightarrow>
      floatTo16BitPCM input ! i = pcm_sample (input ! i) \<and>
      - 32768 \<le> sint (floatTo16BitPCM input ! i) \<and> sint (floatTo16BitPCM input ! i) \<le> 32767) \<and>
   (\<forall>x. \<exists>v. scaled (Finite x) = Finite v \<and> - 32768 \<le> v \<and> v \<le> 32767 \<and>
      sint (pcm_sample (Finite x)) = trunc v) \<and>
   (\<forall>x. single x \<longrightarrow> sint (pcm_sample (Finite x)) = trunc (clamp_scale x)) \<and>
   pcm_sample NaN = 0 \<and> sint (pcm_sample PosInf) = 32767 \<and> sint (pcm_sample NegInf) = - 32768 \<and>
   pcm_sample (Finite 0) = 0 \<and> sint (pcm_sample (Finite 1)) = 32767 \<and>
   sint (pcm_sample (Finite (- 1))) = - 32768"
proof -
  have range: "\<exists>v. scaled (Finite x) = Finite v \<and> - 32768 \<le> v \<and> v \<le> 32767 \<and>
      sint (pcm_sample (Finite x)) = trunc v" for x
  proof -
    from scaled_range [of x] obtain v where v: "scaled (Finite x) = Finite v" "- 32768 \<le> v" "v \<le> 32767"
      by blast
    then have "sint (pcm_sample (Finite x)) = trunc v"
      using sint_ToInt16 [of v] by (simp add: pcm_sample_def del: ToInt16.simps)
    with v show ?thesis by blast
  qed
  have exact: "sint (pcm_sample (Finite x)) = trunc (clamp_scale x)" if "single x" for x
    using range [of x] scaled_exact [OF that] by auto
  have "- 32768 \<le> sint w \<and> sint w \<le> 32767" for w :: "16 word"
    using sint_ge [of w] sint_lt [of w] by simp
  then have elems: "\<forall>i. i < length input \<longrightarrow>
      floatTo16BitPCM input ! i = pcm_sample (input ! i) \<and>
      - 32768 \<le> sint (floatTo16BitPCM input ! i) \<and> sint (floatTo16BitPCM input ! i) \<le> 32767"
    by (simp add: floatTo16BitPCM_map)
  have len: "length (floatTo16BitPCM input) = length input"
    by (simp add: floatTo16BitPCM_map)
  show ?thesis
    using len elems range exact pcm_sample_values by blast
qed

theorem floatTo16BitPCM_encoding_witness:
  "single (1 / 2) \<and> sint (pcm_sample (Finite (1 / 2))) = 16383 \<and>
   floatTo16BitPCM [Finite (- 5), Finite (1 / 2)] ! 1 = pcm_sample (Finite (1 / 2)) \<and>
   sint (floatTo16BitPCM [Finite (- 5), Finite (1 / 2)] ! 0) \<le> 32767"
proof -
  have s: "single (1 / 2)" by code_simp
  have t: "trunc (clamp_scale (1 / 2)) = 16383" by code_simp
  note enc = floatTo16BitPCM_encoding [of "[Finite (- 5), Finite (1 / 2)]"]
  from enc have e: "\<forall>x. single x \<longrightarrow> sint (pcm_sample (Finite x)) = trunc (clamp_scale x)"
    by blast
  from enc have i: "\<forall>i. i < length [Finite (- 5), Finite (1 / 2)] \<longrightarrow>
      floatTo16BitPCM [Finite (- 5), Finite (1 / 2)] ! i = pcm_sample ([Finite (- 5), Finite (1 / 2)] ! i) \<and>
      - 32768 \<le> sint (floatTo16BitPCM [Finite (- 5), Finite (1 / 2)] ! i) \<and>
      sint (floatTo16BitPCM [Finite (- 5), Finite (1 / 2)] ! i) \<le> 32767"
    by blast
  from e s t have "sint (pcm_sample (Finite (1 / 2))) = 16383" by simp
  moreover from i [rule_format, of 1] have
    "floatTo16BitPCM [Finite (- 5), Finite (1 / 2)] ! 1 = pcm_sample (Finite (1 / 2))"
    by simp
  moreover from i [rule_format, of 0] have
    "sint (floatTo16BitPCM [Finite (- 5), Finite (1 / 2)] ! 0) \<le> 32767"
    by simp
  ultimately show ?thesis using s by blast
qed

subsection \<open>Properties of the resampler\<close>




text \<open>
  A smaller tie, evaluated through the loop: nine samples from 18 Hz to 7 Hz give three
  samples, where the exact quotient 3.5 rounds to four.
\<close>

lemma downsampleBuffer_small_tie:
  "downsampleBuffer (replicate 9 (Finite 1)) (Finite 18) (Finite 7) = Inr (replicate 3 (Finite 1)) \<and>
   length_law 9 18 7 = 4"
  by code_simp

text \<open>
  Claim C9. If every sample of the input buffer lies in \<open>[-1, 1]\<close>, so does every
  sample of the output buffer. Each output sample is the rounded sum of a block of
  input samples divided by their number, or 0 divided by 1 for an empty block; a sum of
  \<open>count\<close> samples stays within \<open>count\<close> in absolute value under rounding,
  because every count up to \<open>2\<^sup>5\<^sup>3\<close> is a double, and the quotient and its
  single-precision store stay within 1. (No array is longer than \<open>2\<^sup>5\<^sup>3\<close>.)
\<close>

theorem downsampleBuffer_unit_range:
  assumes "\<forall>x\<in>set buffer. unit_sample x" "length buffer \<le> 2 ^ 53"
    and "downsampleBuffer buffer inputSampleRate outputSampleRate = Inr out"
  shows "\<forall>x\<in>set out. unit_sample x"
proof (cases "strict_eq outputSampleRate inputSampleRate")
  case True
  then show ?thesis using assms by (simp add: downsampleBuffer_def)
next
  case False
  define ratio where "ratio = fdiv inputSampleRate outputSampleRate"
  define newLength where "newLength = Math_round (fdiv (Finite (of_nat (length buffer))) ratio)"
  from assms(3) False obtain n where n: "ToIndex newLength = Some n"
    and d: "downsample_loop buffer ratio 0 (Finite 0) (replicate n (Finite 0)) = Inr out"
    unfolding ratio_def newLength_def
    by (auto simp: downsampleBuffer_def Let_def split: option.splits)
  show ?thesis
  proof (cases "n = 0")
    case True
    then have "out = []" using d by (subst (asm) downsample_loop.simps) simp
    then show ?thesis by simp
  next
    case False
    then have "0 < n" by simp
    with n obtain r where r: "ratio = Finite r" "0 < r"
      unfolding newLength_def using loop_ratio_pos by blast
    have "\<forall>x\<in>set (replicate n (Finite 0)). unit_sample x" by simp
    moreover have "0 \<le> r" using r by simp
    moreover have "offset_ok (Finite 0)" by simp
    ultimately have "\<exists>out. downsample_loop buffer (Finite r) 0 (Finite 0) (replicate n (Finite 0)) = Inr out \<and>
           (\<forall>x\<in>set out. unit_sample x)"
      using assms(1,2) by (intro downsample_loop_unit)
    then show ?thesis using d r by simp
  qed
qed


theorem downsampleBuffer_unit_range_witness:
  "downsampleBuffer [Finite 1, Finite (1 / 2), Finite (- 1), Finite (1 / 4), Finite 0]
     (Finite 48000) (Finite 24000) = Inr [Finite (3 / 4), Finite (- (3 / 8)), Finite 0] \<and>
   unit_sample (Finite (3 / 4)) \<and> unit_sample (Finite (- (3 / 8))) \<and> unit_sample (Finite 0)"
proof -
  let ?b = "[Finite 1, Finite (1 / 2), Finite (- 1), Finite (1 / 4), Finite 0]"
  have e: "downsampleBuffer ?b (Finite 48000) (Finite 24000)
      = Inr [Finite (3 / 4), Finite (- (3 / 8)), Finite 0]"
    by code_simp
  have h: "\<forall>x\<in>set ?b. unit_sample x" by simp
  have l: "length ?b \<le> 2 ^ 53" by simp
  from downsampleBuffer_unit_range [OF h l e] e show ?thesis by simp
qed

text \<open>
  An empty block: from 24000 Hz to 48000 Hz every second block of the loop is empty, and
  its output sample is 0.
\<close>

lemma downsampleBuffer_empty_block:
  "downsampleBuffer [Finite 1, Finite (- 1)] (Finite 24000) (Finite 48000)
     = Inr [Finite 1, Finite 0, Finite (- 1), Finite 0]"
  by code_simp

subsection \<open>Properties of the session\<close>

text \<open>
  Claim C10. The final transcript never has leading or trailing whitespace. In every run
  of the hook from its first render, every text that \<^verbatim>\<open>stopRecording\<close> returns
  (after the finalize message of the service, after the timeout, or at once from the
  guard of a call made during a stop) and every argument of \<^verbatim>\<open>onFinalTranscript\<close>
  and \<^verbatim>\<open>onAutoStop\<close> is trimmed, and trimming it again changes nothing.
\<close>

theorem final_transcript_trimmed:
  "list_all (\<lambda>e. case final_text e of None \<Rightarrow> True
                 | Some text \<Rightarrow> trimmed text \<and> trim text = text)
     (effects (run (initial vadEnabled vadSilenceMs vadThreshold) es))"
proof -
  have "list_all (\<lambda>e. case final_text e of None \<Rightarrow> True | Some t \<Rightarrow> trimmed t)
     (effects (run (initial vadEnabled vadSilenceMs vadThreshold) es))"
    using finals_trimmed_run [of vadEnabled vadSilenceMs vadThreshold es]
    by (simp add: finals_trimmed_def)
  then show ?thesis
    by (rule list.pred_mono_strong) (auto simp: trimmed_trim_id split: option.splits)
qed

theorem final_transcript_trimmed_witness:
  "trimmed (js ''hello'') \<and> trim (js ''hello world'') = js ''hello world''"
  using final_transcript_trimmed [of False 1500 "Finite (1 / 64)" example_run]
  by (simp add: example_effects [unfolded example_initial_def])

text \<open>
  Claim C7. In every run of the hook, when the interval callback calls
  \<^verbatim>\<open>triggerStop\<close>, an earlier event of the run is a frame that the audio handler
  accepted with an energy above the threshold, and no call of \<^verbatim>\<open>startRecording\<close>
  has begun a new session since that frame: the trigger never fires before voice was
  detected in the session, however long the silence from its start.
\<close>

theorem vad_no_premature_fire:
  assumes "fst (vad_tick now (run (initial vadEnabled vadSilenceMs vadThreshold) es))"
  shows "\<exists>es1 e es2. es = es1 @ e # es2 \<and>
           voiced_frame (run (initial vadEnabled vadSilenceMs vadThreshold) es1) e \<and>
           same_session (step e (run (initial vadEnabled vadSilenceMs vadThreshold) es1)) es2"
proof -
  let ?i = "initial vadEnabled vadSilenceMs vadThreshold"
  have "hasVoiceRef (run ?i es)" using assms by (auto simp: vad_tick_def split: if_splits)
  moreover have "\<not> hasVoiceRef ?i" by (simp add: initial_def)
  ultimately show ?thesis using hasVoice_origin [of ?i es] by blast
qed

theorem vad_no_premature_fire_witness:
  "fst (vad_tick 7600 (run (initial True 1500 (Finite (1 / 64)))
     [StartRecording 0, MediaGranted, WsOpen 0,
      AudioProcess 6000 (Finite (1 / 8)) [Finite (1 / 8), Finite (1 / 8)] (Finite 48000)])) \<and>
   (\<exists>es1 e es2.
      [StartRecording 0, MediaGranted, WsOpen 0,
       AudioProcess 6000 (Finite (1 / 8)) [Finite (1 / 8), Finite (1 / 8)] (Finite 48000)]
        = es1 @ e # es2 \<and>
      voiced_frame (run (initial True 1500 (Finite (1 / 64))) es1) e \<and>
      same_session (step e (run (initial True 1500 (Finite (1 / 64))) es1)) es2)"
proof -
  have f: "fst (vad_tick 7600 (run (initial True 1500 (Finite (1 / 64)))
     [StartRecording 0, MediaGranted, WsOpen 0,
      AudioProcess 6000 (Finite (1 / 8)) [Finite (1 / 8), Finite (1 / 8)] (Finite 48000)]))"
    by code_simp
  from vad_no_premature_fire [OF f] f show ?thesis by blast
qed

text \<open>Silence from the start of the session never fires the trigger, however long it lasts.\<close>

lemma vad_silent_session:
  "\<not> fst (vad_tick 1000000 (run (initial True 1500 (Finite (1 / 64)))
     [StartRecording 0, MediaGranted, WsOpen 0,
      AudioProcess 6000 (Finite (1 / 1024)) [Finite (1 / 1024), Finite (1 / 1024)] (Finite 48000)]))"
  by code_simp

text \<open>
  Claim C3, as amended. A call of \<^verbatim>\<open>stopRecording\<close> in an idle session (not
  recording, not connecting, not stopping) does not return at once: the code has no
  guard for this state, the call sets \<^verbatim>\<open>stoppingRef\<close> and stays pending. With
  no socket and no audio resources it releases and sends nothing, waits on its
  \<^verbatim>\<open>finalizePromise\<close>, and when the timeout fires it returns the trimmed
  \<^verbatim>\<open>transcriptRef\<close>: the empty string before the first recording, the transcript
  of the last recording after it.
\<close>

theorem stopRecording_idle:
  assumes "\<not> isRecording s" "\<not> isConnecting s" "\<not> stoppingRef s"
  shows "fst (stopRecording reason s) = None \<and>
         stoppingRef (snd (stopRecording reason s)) \<and>
         (wsRef s = None \<and> \<not> audioContextRef s \<and> \<not> processorRef s \<and> \<not> streamRef s \<longrightarrow>
            effects (snd (stopRecording reason s)) = effects s \<and>
            length (stops (snd (stopRecording reason s))) = length (stops s) + 1 \<and>
            phase_of (stops (snd (stopRecording reason s)) ! length (stops s)) = Waiting \<and>
            effects (timeout (length (stops s)) (snd (stopRecording reason s))) =
              effects s @ (if reason = Vad then [OnAutoStop (trim (transcriptRef s))] else [])
                @ [Returned (length (stops s)) (trim (transcriptRef s))])"
proof (intro conjI impI)
  show "fst (stopRecording reason s) = None" using assms(3) by (simp add: stopRecording_fst)
  show "stoppingRef (snd (stopRecording reason s))"
    using assms(3)
    by (simp add: stopRecording_snd cleanupAudio_def cleanupAudio_rest_def stop_after_cleanup_def
        stop_begin_def clearVadInterval_def emit_def set_stop_def Let_def)
next
  assume r: "wsRef s = None \<and> \<not> audioContextRef s \<and> \<not> processorRef s \<and> \<not> streamRef s"
  define k where "k = length (stops s)"
  define s' where "s' = snd (stopRecording reason s)"
  have s': "s' = stop_after_cleanup k (clearVadInterval (stop_begin reason s))"
    unfolding s'_def k_def using assms(3) r
    by (simp add: stopRecording_snd cleanupAudio_def cleanupAudio_rest_def stop_begin_def
        clearVadInterval_def Let_def)
  have sb: "stops (clearVadInterval (stop_begin reason s))
      = stops s @ [\<lparr>reason_of = reason, ws_of = None, phase_of = Cleaning\<rparr>]"
    by (simp add: stop_begin_def clearVadInterval_def Let_def)
  have w: "wsRef (clearVadInterval (stop_begin reason s)) = None"
    using r by (simp add: stop_begin_def clearVadInterval_def Let_def)
  have st: "stops s' = stops s @ [\<lparr>reason_of = reason, ws_of = None, phase_of = Waiting\<rparr>]"
    unfolding s' using sb w
    by (simp add: stop_after_cleanup_def socket_open_def set_stop_def Let_def k_def)
  show "effects (snd (stopRecording reason s)) = effects s"
    unfolding s'_def [symmetric] s' using w
    by (simp add: stop_after_cleanup_def socket_open_def Let_def)
  show "length (stops (snd (stopRecording reason s))) = length (stops s) + 1"
    unfolding s'_def [symmetric] st by simp
  show "phase_of (stops (snd (stopRecording reason s)) ! length (stops s)) = Waiting"
    unfolding s'_def [symmetric] st by simp
  have e: "effects s' = effects s" "transcriptRef s' = transcriptRef s"
    unfolding s' using w by (simp_all add: stop_after_cleanup_def socket_open_def Let_def)
  show "effects (timeout (length (stops s)) (snd (stopRecording reason s))) =
      effects s @ (if reason = Vad then [OnAutoStop (trim (transcriptRef s))] else [])
        @ [Returned (length (stops s)) (trim (transcriptRef s))]"
    unfolding s'_def [symmetric] using st e
    by (simp add: timeout_def resolve_def stop_finish_def socket_open_def set_stop_def Let_def)
qed

theorem stopRecording_idle_witness:
  "fst (stopRecording Manual example_initial) = None \<and>
   stoppingRef (snd (stopRecording Manual example_initial)) \<and>
   effects (timeout 0 (snd (stopRecording Manual example_initial))) = [Returned 0 []]"
  using stopRecording_idle [of example_initial Manual]
  by (simp add: example_initial_def initial_def)

text \<open>
  The claim as stated fails in the idle session that the example leaves behind: the call
  is pending, not returned, and the timeout makes it return the transcript of the
  finished recording, not the empty string.
\<close>

theorem stopRecording_idle_counterexample:
  "\<not> isRecording (run example_initial example_run) \<and>
   \<not> isConnecting (run example_initial example_run) \<and>
   \<not> stoppingRef (run example_initial example_run) \<and>
   fst (stopRecording Manual (run example_initial example_run)) = None \<and>
   effects (run (run example_initial example_run) [StopRecording Manual, Timeout 1])
     = effects (run example_initial example_run) @ [Returned 1 (js ''hello world'')]"
  by code_simp

text \<open>
  Claim C4, as amended. A call of \<^verbatim>\<open>stopRecording\<close> while a stop is in progress
  changes nothing in the session and performs no teardown (its only effect is its own
  return): it returns at once the trimmed \<^verbatim>\<open>transcriptRef\<close> as it is at the call.
  The call in progress returns the trimmed \<^verbatim>\<open>transcriptRef\<close> as it is when its
  promise is resolved, by the timeout or by the finalize message. So the two calls
  return the same text when, between the second call and the resolution, React runs no
  queued updater of the transcript (no render) and no new recording is started; a
  fragment that arrives in between only queues its updater and changes neither result.
\<close>

theorem stopRecording_reentrant:
  "stoppingRef s \<longrightarrow>
     stopRecording reason s = (Some (trim (transcriptRef s)), s) \<and>
     step (StopRecording reason) s = emit (ReturnedEarly (trim (transcriptRef s))) s \<and>
     (list_all (\<lambda>e. \<not> changes_transcript e) es \<longrightarrow>
        trim (transcriptRef (run (step (StopRecording reason) s) es)) = trim (transcriptRef s)) \<and>
     (k < length (stops s) \<and> phase_of (stops s ! k) = Waiting \<longrightarrow>
        (\<exists>pre. effects (timeout k s) = effects s @ pre @ [Returned k (trim (transcriptRef s))]) \<and>
        (finalizeRef s = Some k \<longrightarrow>
           (\<exists>pre. effects (finalize s) = effects s @ pre @ [Returned k (trim (transcriptRef s))])))"
proof (intro impI conjI)
  assume st: "stoppingRef s"
  then show a: "stopRecording reason s = (Some (trim (transcriptRef s)), s)"
    by (simp add: stopRecording_def)
  then show b: "step (StopRecording reason) s = emit (ReturnedEarly (trim (transcriptRef s))) s"
    by simp
  {
    assume q: "list_all (\<lambda>e. \<not> changes_transcript e) es"
    show "trim (transcriptRef (run (step (StopRecording reason) s) es)) = trim (transcriptRef s)"
      unfolding b using tr_run [OF q] by simp
  }
  {
    assume w: "k < length (stops s) \<and> phase_of (stops s ! k) = Waiting"
    then show "\<exists>pre. effects (timeout k s) = effects s @ pre @ [Returned k (trim (transcriptRef s))]"
      by (simp add: timeout_def resolve_def stop_finish_def Let_def)
    {
      assume f: "finalizeRef s = Some k"
      have "k < length (stops (emit (OnFinalTranscript (trim (transcriptRef s))) s\<lparr>finalizeRef := None\<rparr>))"
        "phase_of (stops (emit (OnFinalTranscript (trim (transcriptRef s))) s\<lparr>finalizeRef := None\<rparr>) ! k) = Waiting"
        using w by (simp_all add: emit_def)
      then show "\<exists>pre. effects (finalize s) = effects s @ pre @ [Returned k (trim (transcriptRef s))]"
        using f by (simp add: finalize_def resolve_def stop_finish_def Let_def)
    }
  }
qed

theorem stopRecording_reentrant_witness:
  "stoppingRef (run example_initial (take 7 example_run)) \<and>
   stopRecording Manual (run example_initial (take 7 example_run))
     = (Some (js ''hello''), run example_initial (take 7 example_run)) \<and>
   trim (transcriptRef (run (step (StopRecording Manual) (run example_initial (take 7 example_run)))
      [WsMessage 0 (TextFragment (js ''hello world'')), WsMessage 0 EndText])) = js ''hello''"
proof -
  let ?s = "run example_initial (take 7 example_run)"
  let ?es = "[WsMessage 0 (TextFragment (js ''hello world'')), WsMessage 0 EndText]"
  have s: "stoppingRef ?s" by code_simp
  have t: "trim (transcriptRef ?s) = js ''hello''" by code_simp
  have q: "list_all (\<lambda>e. \<not> changes_transcript e) ?es" by simp
  note r = stopRecording_reentrant [of ?s Manual ?es 0]
  from r s have "stopRecording Manual ?s = (Some (trim (transcriptRef ?s)), ?s)" by blast
  then have 1: "stopRecording Manual ?s = (Some (js ''hello''), ?s)" unfolding t .
  from r s q have "trim (transcriptRef (run (step (StopRecording Manual) ?s) ?es))
      = trim (transcriptRef ?s)" by blast
  then have 2: "trim (transcriptRef (run (step (StopRecording Manual) ?s) ?es))
      = js ''hello''" unfolding t .
  from s 1 2 show ?thesis by blast
qed

text \<open>
  The claim as stated fails when React renders between the second call and the
  resolution of the first. In the example the last fragment arrives after the second
  call and is rendered before the finalize message: the second call returns
  \<open>"hello"\<close> and the first call \<open>"hello world"\<close>. In the second run no fragment
  arrives after the second call: the only fragment came before the first call, React
  renders it after the second call, and the timeout ends the stop: the second call
  returns the empty string and the first call \<open>"hello"\<close>. The callback
  \<^verbatim>\<open>onTranscript\<close> gets the transcript of the last render, not the fragment
  that has just arrived. The teardown of the audio nodes, the end-of-stream message and
  the close of the socket each happen once in both runs.
\<close>

theorem stopRecording_reentrant_counterexample:
  "stoppingRef (run example_initial (take 7 example_run)) \<and>
   effects (run example_initial example_run) =
     [OnTranscript [], ProcessorDisconnected, AudioContextClose, TracksStopped,
      SentEndOfStream 0, ReturnedEarly (js ''hello''), OnTranscript (js ''hello''),
      OnFinalTranscript (js ''hello world''), SocketClose 0, Returned 0 (js ''hello world'')] \<and>
   js ''hello'' \<noteq> js ''hello world'' \<and>
   effects (run example_initial
     [StartRecording 0, MediaGranted, WsOpen 0, WsMessage 0 (TextFragment (js ''hello'')),
      StopRecording Manual, AudioClosed 0, StopRecording Manual, Render, Timeout 0]) =
     [OnTranscript [], ProcessorDisconnected, AudioContextClose, TracksStopped,
      SentEndOfStream 0, ReturnedEarly [], SocketClose 0, Returned 0 (js ''hello'')] \<and>
   [] \<noteq> js ''hello''"
  by code_simp

text \<open>
  In the older variant nothing keeps a second call from a second teardown: called twice
  while recording, it sends the end-of-stream message twice, and the second call takes
  over \<^verbatim>\<open>finalizeRef\<close>, so that the first call can only end by its timeout.
\<close>

lemma stopRecording_old_twice:
  "effects (stopRecording_old (audio_closed 0 (stopRecording_old
      (run example_initial (take 5 example_run))))) =
     [OnTranscript [], ProcessorDisconnected, AudioContextClose, TracksStopped,
      SentEndOfStream 0, SentEndOfStream 0] \<and>
   finalizeRef (stopRecording_old (audio_closed 0 (stopRecording_old
      (run example_initial (take 5 example_run))))) = Some 1"
  by code_simp

text \<open>
  The end-to-end scenario of the specification, with a render after each fragment: the
  fragments \<open>"port"\<close>, \<open>"portfolio"\<close> and \<open>"portfolio is up"\<close> leave the
  live transcript \<open>"portfolio is up"\<close>, and after the finalize signal the stop
  returns it.
\<close>

lemma end_to_end:
  "transcript (run example_initial
     [StartRecording 0, MediaGranted, WsOpen 0,
      WsMessage 0 (TextFragment (js ''port'')), Render,
      WsMessage 0 (TextFragment (js ''portfolio'')), Render,
      WsMessage 0 (TextFragment (js ''portfolio is up'')), Render]) = js ''portfolio is up'' \<and>
   last (effects (run example_initial
     [StartRecording 0, MediaGranted, WsOpen 0,
      WsMessage 0 (TextFragment (js ''port'')), Render,
      WsMessage 0 (TextFragment (js ''portfolio'')), Render,
      WsMessage 0 (TextFragment (js ''portfolio is up'')), Render,
      StopRecording Manual, AudioClosed 0, WsMessage 0 EndOfStream]))
     = Returned 0 (js ''portfolio is up'')"
  by code_simp

text \<open>
  Without a render between the last fragment and the finalize signal, the stop returns
  the transcript of the last render: \<open>"port"\<close>, while the fragment
  \<open>"portfolio"\<close> waits in the queue.
\<close>

lemma end_to_end_unrendered:
  "last (effects (run example_initial
     [StartRecording 0, MediaGranted, WsOpen 0,
      WsMessage 0 (TextFragment (js ''port'')), Render,
      WsMessage 0 (TextFragment (js ''portfolio'')),
      StopRecording Manual, AudioClosed 0, WsMessage 0 EndOfStream]))
     = Returned 0 (js ''port'') \<and>
   transcript_updates (run example_initial
     [StartRecording 0, MediaGranted, WsOpen 0,
      WsMessage 0 (TextFragment (js ''port'')), Render,
      WsMessage 0 (TextFragment (js ''portfolio'')),
      StopRecording Manual, AudioClosed 0, WsMessage 0 EndOfStream])
     = [Updater (js ''portfolio'')]"
  by code_simp
end
